theory Spec2Isabelle
  imports Main "HOL-Library.Multiset" "HOL-Library.Log_Nat" "HOL-Library.Code_Target_Nat"
begin

section \<open>Sizes, floating-point values and memory\<close>

text \<open>
  \<^verbatim>\<open>typedef size_t arrsize_t\<close>: an unsigned 64-bit integer. Sizes and indices are
  natural numbers; wherever the source subtracts or adds in a way that can leave the
  range, the wrap-around is written out with \<open>sz_sub\<close> and \<open>sz_add\<close>.
\<close>

type_synonym arrsize_t = nat

definition sz_add :: "arrsize_t \<Rightarrow> arrsize_t \<Rightarrow> arrsize_t" where
  "sz_add a b = (a + b) mod 2 ^ 64"

definition sz_sub :: "arrsize_t \<Rightarrow> arrsize_t \<Rightarrow> arrsize_t" where
  "sz_sub a b = (a + (2 ^ 64 - b mod 2 ^ 64)) mod 2 ^ 64"

text \<open>
  A floating-point cell is either a number or a NaN. Numbers are the values the
  comparisons see (an ordered type \<open>'v\<close> that holds the finite values and the two
  infinities, with \<open>-0.0\<close> and \<open>+0.0\<close> one value); a NaN carries its sign and payload
  bits as a natural number. \<open>quiet_NaN\<close> is the one bit pattern
  \<^verbatim>\<open>std::numeric_limits<T>::quiet_NaN()\<close> returns.
\<close>

datatype 'v fp = Num 'v | NaN nat

definition quiet_NaN :: "'v fp" where
  "quiet_NaN = NaN 0"

text \<open>\<^verbatim>\<open>is_a_nan(elem)\<close> is \<^verbatim>\<open>std::isnan(elem)\<close>.\<close>

fun is_a_nan :: "'v fp \<Rightarrow> bool" where
  "is_a_nan (NaN p) = True"
| "is_a_nan (Num v) = False"

text \<open>
  An array is the list of its cells. A read or a write at an index that is not a cell of
  the list is undefined behaviour in the source and \<open>None\<close> here.
  \<open>swap_cells\<close> is \<^verbatim>\<open>std::swap(arr[i], arr[j])\<close>.
\<close>

definition swap_cells :: "'a list \<Rightarrow> nat \<Rightarrow> nat \<Rightarrow> 'a list" where
  "swap_cells arr i j = arr[i := arr ! j, j := arr ! i]"

section \<open>Moving NaNs to the end of the array\<close>

text \<open>
  The loop of \<^verbatim>\<open>move_nans_to_end_of_array\<close>:
  \<^verbatim>\<open>while (ii < jj) { if (is_a_nan(arr[ii])) { std::swap(arr[ii], arr[jj]); jj -= 1; count++; }
                     else { ii += 1; } }\<close>
  Inside the loop \<open>ii < jj\<close>, so \<open>jj - 1\<close> does not wrap.
\<close>

function move_nans_loop ::
  "'v fp list \<Rightarrow> arrsize_t \<Rightarrow> arrsize_t \<Rightarrow> arrsize_t
     \<Rightarrow> ('v fp list \<times> arrsize_t \<times> arrsize_t \<times> arrsize_t) option" where
  "move_nans_loop arr ii jj cnt =
     (if ii < jj then
        (if jj < length arr then
           (if is_a_nan (arr ! ii)
            then move_nans_loop (swap_cells arr ii jj) ii (jj - 1) (cnt + 1)
            else move_nans_loop arr (ii + 1) jj cnt)
         else None)
      else Some (arr, ii, jj, cnt))"
  by pat_completeness auto
termination
  by (relation "measure (\<lambda>(arr, ii, jj, cnt). jj - ii)") auto

text \<open>
  \<^verbatim>\<open>move_nans_to_end_of_array(arr, size)\<close>: \<open>jj\<close> starts at \<^verbatim>\<open>size - 1\<close>, the cell
  \<^verbatim>\<open>arr[ii]\<close> left unchecked by the loop is checked after it, and the result is
  \<^verbatim>\<open>size - count - 1\<close>, all in \<open>arrsize_t\<close> (\<open>sz\<close> is the source's \<^verbatim>\<open>size\<close>,
  \<open>cnt\<close> its \<^verbatim>\<open>count\<close>).
\<close>

definition move_nans_to_end_of_array ::
  "'v fp list \<Rightarrow> arrsize_t \<Rightarrow> ('v fp list \<times> arrsize_t) option" where
  "move_nans_to_end_of_array arr sz =
     (case move_nans_loop arr 0 (sz_sub sz 1) 0 of
        None \<Rightarrow> None
      | Some (arr', ii, jj, cnt) \<Rightarrow>
          if ii < length arr'
          then Some (arr', sz_sub (sz_sub sz (if is_a_nan (arr' ! ii) then cnt + 1 else cnt)) 1)
          else None)"

text \<open>The number of NaNs among the cells of a list.\<close>

definition nan_count_of :: "'v fp list \<Rightarrow> nat" where
  "nan_count_of xs = length (filter is_a_nan xs)"

section \<open>The SIMD capability pack\<close>

text \<open>
  Modelled from the spec: the per-type capability pack \<^verbatim>\<open>zmm_vector<T>\<close> (section 4.1 of the
  specification); the source only declares \<^verbatim>\<open>template <typename type> struct zmm_vector\<close>.
  A register is the list of its lanes (\<^verbatim>\<open>numlanes\<close> of them, lane 0 first), an opmask the
  list of its bits. The constants \<^verbatim>\<open>numlanes\<close>, \<^verbatim>\<open>network_sort_threshold\<close>,
  \<^verbatim>\<open>partition_unroll_factor\<close>, \<^verbatim>\<open>type_max()\<close> and \<^verbatim>\<open>type_min()\<close> of the pack are
  parameters of the functions that use them. The order of the lanes' values is a linear
  order: that of the integers, and for floating-point types the order on the numbers
  (NaNs are replaced before any partition starts).
\<close>

text \<open>Modelled from the spec: \<^verbatim>\<open>loadu(ptr)\<close> reads \<open>lanes\<close> consecutive cells.\<close>

definition loadu :: "nat \<Rightarrow> 'a list \<Rightarrow> arrsize_t \<Rightarrow> 'a list option" where
  "loadu lanes arr i = (if i + lanes \<le> length arr then Some (take lanes (drop i arr)) else None)"

text \<open>Modelled from the spec: \<^verbatim>\<open>set1(x)\<close> fills every lane with \<open>x\<close>.\<close>

definition set1 :: "nat \<Rightarrow> 'a \<Rightarrow> 'a list" where
  "set1 lanes x = replicate lanes x"

text \<open>Modelled from the spec: \<^verbatim>\<open>ge(R, R)\<close>, true where the left lane is \<open>\<ge>\<close> the right one.\<close>

definition ge :: "'a::linorder list \<Rightarrow> 'a list \<Rightarrow> bool list" where
  "ge a b = map2 (\<lambda>x y. y \<le> x) a b"

text \<open>Modelled from the spec: \<^verbatim>\<open>eq(R, R)\<close>, true where the two lanes are equal.\<close>

definition eq :: "'a list \<Rightarrow> 'a list \<Rightarrow> bool list" where
  "eq a b = map2 (\<lambda>x y. x = y) a b"

text \<open>Modelled from the spec: \<^verbatim>\<open>knot(M)\<close> negates every bit of the mask.\<close>

definition knot_opmask :: "bool list \<Rightarrow> bool list" where
  "knot_opmask m = map Not m"

text \<open>\<^verbatim>\<open>_mm_popcnt_u64\<close>, \<^verbatim>\<open>_mm_popcnt_u32\<close>: the number of bits set in a mask.\<close>

definition popcnt :: "bool list \<Rightarrow> nat" where
  "popcnt m = length (filter (\<lambda>b. b) m)"

text \<open>The lanes of a register a mask selects, in lane order.\<close>

definition selected :: "bool list \<Rightarrow> 'a list \<Rightarrow> 'a list" where
  "selected m v = map snd (filter fst (zip m v))"

text \<open>
  A store of the cells \<open>xs\<close> at consecutive positions from \<open>i\<close> on. A store of no cell
  touches no memory; a store that reaches beyond the array is undefined behaviour.
\<close>

definition store_cells :: "'a list \<Rightarrow> arrsize_t \<Rightarrow> 'a list \<Rightarrow> 'a list option" where
  "store_cells arr i xs =
     (if xs = [] then Some arr
      else if i + length xs \<le> length arr
      then Some (take i arr @ xs @ drop (i + length xs) arr)
      else None)"

text \<open>
  Modelled from the spec: \<^verbatim>\<open>mask_compressstoreu(ptr, M, R)\<close> writes the lanes selected by
  \<open>M\<close> contiguously starting at \<open>ptr\<close>; the count written is the popcount of \<open>M\<close>.
\<close>

definition mask_compressstoreu :: "'a list \<Rightarrow> arrsize_t \<Rightarrow> bool list \<Rightarrow> 'a list \<Rightarrow> 'a list option" where
  "mask_compressstoreu arr i m v = store_cells arr i (selected m v)"

text \<open>Modelled from the spec: lane-wise \<^verbatim>\<open>min\<close> and \<^verbatim>\<open>max\<close>.\<close>

definition vtype_min :: "'a::linorder list \<Rightarrow> 'a list \<Rightarrow> 'a list" where
  "vtype_min a b = map2 min a b"

definition vtype_max :: "'a::linorder list \<Rightarrow> 'a list \<Rightarrow> 'a list" where
  "vtype_max a b = map2 max a b"

text \<open>
  Modelled from the spec: the horizontal reductions \<^verbatim>\<open>reducemin(R)\<close> and
  \<^verbatim>\<open>reducemax(R)\<close>, the least and the greatest lane of a register.
\<close>

definition reducemin :: "'a::linorder list \<Rightarrow> 'a" where
  "reducemin v = fold min (tl v) (hd v)"

definition reducemax :: "'a::linorder list \<Rightarrow> 'a" where
  "reducemax v = fold max (tl v) (hd v)"

text \<open>Modelled from the spec: \<^verbatim>\<open>sort_vec(R)\<close> sorts the lanes of one register.\<close>

definition sort_vec :: "'a::linorder list \<Rightarrow> 'a list" where
  "sort_vec v = sort v"

section \<open>Scalar comparisons\<close>

text \<open>\<^verbatim>\<open>comparison_func(a, b)\<close> is \<^verbatim>\<open>a < b\<close>.\<close>

definition comparison_func :: "'a::linorder \<Rightarrow> 'a \<Rightarrow> bool" where
  "comparison_func a b = (a < b)"

text \<open>
  \<^verbatim>\<open>std::min(a, b, comp)\<close> returns \<open>b\<close> if \<^verbatim>\<open>comp(b, a)\<close> and \<open>a\<close> otherwise;
  \<^verbatim>\<open>std::max(a, b, comp)\<close> returns \<open>b\<close> if \<^verbatim>\<open>comp(a, b)\<close> and \<open>a\<close> otherwise.
\<close>

definition std_min :: "'a::linorder \<Rightarrow> 'a \<Rightarrow> 'a" where
  "std_min a b = (if comparison_func b a then b else a)"

definition std_max :: "'a::linorder \<Rightarrow> 'a \<Rightarrow> 'a" where
  "std_max a b = (if comparison_func a b then b else a)"

section \<open>The partition kernel\<close>

text \<open>
  \<^verbatim>\<open>partition_vec(arr, left, unpartitioned, curr_vec, pivot_vec, smallest_vec, biggest_vec)\<close>:
  the lanes below the pivot are stored at \<open>left\<close>, \<open>left\<close> advances by their number, the
  lanes \<open>\<ge>\<close> pivot are stored at \<open>left + unpartitioned\<close> (the new \<open>left\<close>), and
  \<open>unpartitioned\<close> drops by \<open>numlanes\<close> (in \<open>arrsize_t\<close>: it wraps once nothing is left).
  The result holds the array and the four by-reference arguments.
\<close>

definition partition_vec ::
  "nat \<Rightarrow> 'a::linorder list \<Rightarrow> arrsize_t \<Rightarrow> arrsize_t \<Rightarrow> 'a list \<Rightarrow> 'a list \<Rightarrow> 'a list \<Rightarrow> 'a list
     \<Rightarrow> ('a list \<times> arrsize_t \<times> arrsize_t \<times> 'a list \<times> 'a list) option" where
  "partition_vec lanes arr left unpartitioned curr_vec pivot_vec smallest_vec biggest_vec =
     (let ge_mask = ge curr_vec pivot_vec;
          amount_ge_pivot = popcnt ge_mask
      in case mask_compressstoreu arr left (knot_opmask ge_mask) curr_vec of
           None \<Rightarrow> None
         | Some arr1 \<Rightarrow>
             (let left' = left + (lanes - amount_ge_pivot)
              in case mask_compressstoreu arr1 (left' + unpartitioned) ge_mask curr_vec of
                   None \<Rightarrow> None
                 | Some arr2 \<Rightarrow>
                     Some (arr2, left', sz_sub unpartitioned lanes,
                           vtype_min curr_vec smallest_vec, vtype_max curr_vec biggest_vec)))"

text \<open>
  The scalar loop that makes the length of the range a multiple of \<open>numlanes\<close>:
  \<^verbatim>\<open>for (int32_t i = (right - left) % numlanes; i > 0; --i) { ... }\<close>, with the number of
  iterations still to run as first argument.
\<close>

fun partition_align ::
  "nat \<Rightarrow> 'a::linorder \<Rightarrow> 'a list \<Rightarrow> arrsize_t \<Rightarrow> arrsize_t \<Rightarrow> 'a \<Rightarrow> 'a
     \<Rightarrow> ('a list \<times> arrsize_t \<times> arrsize_t \<times> 'a \<times> 'a) option" where
  "partition_align 0 pivot arr left right smallest biggest =
     Some (arr, left, right, smallest, biggest)"
| "partition_align (Suc i) pivot arr left right smallest biggest =
     (if left < length arr then
        (let smallest' = std_min smallest (arr ! left);
             biggest' = std_max biggest (arr ! left)
         in if \<not> comparison_func (arr ! left) pivot then
              (let right' = sz_sub right 1
               in if right' < length arr
                  then partition_align i pivot (swap_cells arr left right') left right'
                         smallest' biggest'
                  else None)
            else partition_align i pivot arr (left + 1) right smallest' biggest')
      else None)"

text \<open>
  The main loop of \<^verbatim>\<open>partition_avx512\<close>: \<^verbatim>\<open>while (right - left != 0)\<close>, one register
  loaded from the side with fewer free cells and partitioned. The loop does not return
  when \<open>left\<close> and \<open>right\<close> never meet and every access stays inside the array.
\<close>

partial_function (option) partition_loop ::
  "nat \<Rightarrow> 'a::linorder list \<Rightarrow> 'a list \<Rightarrow> arrsize_t \<Rightarrow> arrsize_t \<Rightarrow> arrsize_t \<Rightarrow> arrsize_t
     \<Rightarrow> 'a list \<Rightarrow> 'a list
     \<Rightarrow> ('a list \<times> arrsize_t \<times> arrsize_t \<times> 'a list \<times> 'a list) option" where
  "partition_loop lanes pivot_vec arr left right l_store unpartitioned min_vec max_vec =
     (if sz_sub right left \<noteq> 0 then
        (if sz_sub (l_store + unpartitioned + lanes) right < sz_sub left l_store then
           (case loadu lanes arr (sz_sub right lanes) of
              None \<Rightarrow> None
            | Some curr_vec \<Rightarrow>
                (case partition_vec lanes arr l_store unpartitioned curr_vec pivot_vec
                        min_vec max_vec of
                   None \<Rightarrow> None
                 | Some (arr', l_store', unpartitioned', min_vec', max_vec') \<Rightarrow>
                     partition_loop lanes pivot_vec arr' left (sz_sub right lanes)
                       l_store' unpartitioned' min_vec' max_vec'))
         else
           (case loadu lanes arr left of
              None \<Rightarrow> None
            | Some curr_vec \<Rightarrow>
                (case partition_vec lanes arr l_store unpartitioned curr_vec pivot_vec
                        min_vec max_vec of
                   None \<Rightarrow> None
                 | Some (arr', l_store', unpartitioned', min_vec', max_vec') \<Rightarrow>
                     partition_loop lanes pivot_vec arr' (left + lanes) right
                       l_store' unpartitioned' min_vec' max_vec')))
      else Some (arr, l_store, unpartitioned, min_vec, max_vec))"

text \<open>
  \<^verbatim>\<open>partition_avx512(arr, left, right, pivot, smallest, biggest)\<close>. The result holds the
  array, the index returned, and the values of \<^verbatim>\<open>*smallest\<close> and \<^verbatim>\<open>*biggest\<close> at
  return. The branch for a range of exactly one register returns \<open>l_store\<close> without
  writing \<^verbatim>\<open>*smallest\<close> and \<^verbatim>\<open>*biggest\<close>.
\<close>

definition partition_avx512 ::
  "nat \<Rightarrow> 'a::linorder list \<Rightarrow> arrsize_t \<Rightarrow> arrsize_t \<Rightarrow> 'a \<Rightarrow> 'a \<Rightarrow> 'a
     \<Rightarrow> ('a list \<times> arrsize_t \<times> 'a \<times> 'a) option" where
  "partition_avx512 lanes arr0 left0 right0 pivot smallest0 biggest0 =
     (case partition_align (sz_sub right0 left0 mod lanes) pivot arr0 left0 right0
             smallest0 biggest0 of
        None \<Rightarrow> None
      | Some (arr, left, right, smallest, biggest) \<Rightarrow>
          if left = right then Some (arr, left, smallest, biggest)
          else
            (let pivot_vec = set1 lanes pivot;
                 min_vec = set1 lanes smallest;
                 max_vec = set1 lanes biggest
             in if sz_sub right left = lanes then
                  (case loadu lanes arr left of
                     None \<Rightarrow> None
                   | Some vec \<Rightarrow>
                       (case partition_vec lanes arr left (sz_sub (sz_sub right left) lanes)
                               vec pivot_vec min_vec max_vec of
                          None \<Rightarrow> None
                        | Some (arr', l_store, unpartitioned, min_vec', max_vec') \<Rightarrow>
                            Some (arr', l_store, smallest, biggest)))
                else
                  (case loadu lanes arr left of
                     None \<Rightarrow> None
                   | Some vec_left \<Rightarrow>
                       (case loadu lanes arr (sz_sub right lanes) of
                          None \<Rightarrow> None
                        | Some vec_right \<Rightarrow>
                            (case partition_loop lanes pivot_vec arr (left + lanes)
                                    (sz_sub right lanes) left
                                    (sz_sub (sz_sub right left) lanes) min_vec max_vec of
                               None \<Rightarrow> None
                             | Some (arr1, l_store1, unpartitioned1, min_vec1, max_vec1) \<Rightarrow>
                                 (case partition_vec lanes arr1 l_store1 unpartitioned1 vec_left
                                         pivot_vec min_vec1 max_vec1 of
                                    None \<Rightarrow> None
                                  | Some (arr2, l_store2, unpartitioned2, min_vec2, max_vec2) \<Rightarrow>
                                      (case partition_vec lanes arr2 l_store2 unpartitioned2
                                              vec_right pivot_vec min_vec2 max_vec2 of
                                         None \<Rightarrow> None
                                       | Some (arr3, l_store3, unpartitioned3, min_vec3,
                                               max_vec3) \<Rightarrow>
                                           Some (arr3, l_store3, reducemin min_vec3,
                                                 reducemax max_vec3))))))))"


text \<open>\<open>seg xs a b\<close>: the cells of \<open>xs\<close> at the positions \<open>a\<close> to \<open>b - 1\<close>.\<close>

definition seg :: "'a list \<Rightarrow> nat \<Rightarrow> nat \<Rightarrow> 'a list" where
  "seg xs a b = take (b - a) (drop a xs)"

text \<open>The array after a store of the cells \<open>xs\<close> at the positions from \<open>i\<close> on, inside the array.\<close>

definition stored :: "'a list \<Rightarrow> nat \<Rightarrow> 'a list \<Rightarrow> 'a list" where
  "stored arr i xs = take i arr @ xs @ drop (i + length xs) arr"

text \<open>
  The invariant of the partition of the range \<open>L..R-1\<close> of \<open>arr0\<close> around \<open>p\<close>: the cells
  before \<open>l_store\<close> are below the pivot, the cells from \<open>r_store\<close> on are not, the cells
  from \<open>left\<close> to \<open>right - 1\<close> are unread, the registers hold the multiset \<open>held\<close>, no cell
  is lost, and nothing outside the range has changed.
\<close>

definition part_inv ::
  "'a::linorder \<Rightarrow> 'a list \<Rightarrow> nat \<Rightarrow> nat \<Rightarrow> 'a list \<Rightarrow> nat \<Rightarrow> nat \<Rightarrow> nat \<Rightarrow> nat \<Rightarrow> 'a multiset \<Rightarrow> bool" where
  "part_inv p arr0 L R arr l_store left right r_store held \<longleftrightarrow>
     length arr = length arr0 \<and> take L arr = take L arr0 \<and> drop R arr = drop R arr0 \<and>
     L \<le> l_store \<and> l_store \<le> left \<and> left \<le> right \<and> right \<le> r_store \<and> r_store \<le> R \<and>
     R \<le> length arr0 \<and>
     (\<forall>x\<in>set (seg arr L l_store). x < p) \<and> (\<forall>x\<in>set (seg arr r_store R). p \<le> x) \<and>
     mset (seg arr L l_store) + mset (seg arr left right) + mset (seg arr r_store R) + held
       = mset (seg arr0 L R)"

text \<open>
  The running extremes: \<open>s\<close> and \<open>b\<close> are the least and the greatest of the seeds
  \<open>s0\<close>, \<open>b0\<close> and the cells stored so far on either side.
\<close>

definition ext_inv ::
  "'a::linorder \<Rightarrow> 'a \<Rightarrow> nat \<Rightarrow> nat \<Rightarrow> 'a list \<Rightarrow> nat \<Rightarrow> nat \<Rightarrow> 'a \<Rightarrow> 'a \<Rightarrow> bool" where
  "ext_inv s0 b0 L R arr l_store r_store s b \<longleftrightarrow>
     s = Min (insert s0 (set (seg arr L l_store) \<union> set (seg arr r_store R))) \<and>
     b = Max (insert b0 (set (seg arr L l_store) \<union> set (seg arr r_store R)))"

text \<open>
  The contract of a partition of the range \<open>left..right-1\<close> of \<open>arr\<close> around \<open>p\<close> with
  result \<open>arr'\<close> and returned index \<open>k\<close>.
\<close>

definition partitioned_at ::
  "'a::linorder \<Rightarrow> 'a list \<Rightarrow> nat \<Rightarrow> nat \<Rightarrow> 'a list \<Rightarrow> nat \<Rightarrow> bool" where
  "partitioned_at p arr left right arr' k \<longleftrightarrow>
     left \<le> k \<and> k \<le> right \<and> length arr' = length arr \<and>
     take left arr' = take left arr \<and> drop right arr' = drop right arr \<and>
     (\<forall>x\<in>set (seg arr' left k). x < p) \<and> (\<forall>x\<in>set (seg arr' k right). p \<le> x) \<and>
     mset (seg arr' left right) = mset (seg arr left right)"

text \<open>
  \<open>load_regs lanes arr idxs\<close>: the registers loaded with \<^verbatim>\<open>loadu\<close> from the positions
  \<open>idxs\<close>, as the loops \<^verbatim>\<open>for (int ii = 0; ii < num_unroll; ++ii)\<close> fill \<^verbatim>\<open>vec_left\<close>,
  \<^verbatim>\<open>vec_right\<close> and \<^verbatim>\<open>curr_vec\<close>. (The prefetch hints touch no cell.)
\<close>

fun load_regs :: "nat \<Rightarrow> 'a list \<Rightarrow> arrsize_t list \<Rightarrow> 'a list list option" where
  "load_regs lanes arr [] = Some []"
| "load_regs lanes arr (i # idxs) =
     (case loadu lanes arr i of
        None \<Rightarrow> None
      | Some v \<Rightarrow>
          (case load_regs lanes arr idxs of
             None \<Rightarrow> None
           | Some vs \<Rightarrow> Some (v # vs)))"

text \<open>
  \<open>partition_vecs\<close>: \<^verbatim>\<open>partition_vec\<close> called on each register of a list in turn, as the
  loops \<^verbatim>\<open>for (int ii = 0; ii < num_unroll; ++ii) partition_vec<vtype>(arr, l_store,
  unpartitioned, curr_vec[ii], pivot_vec, min_vec, max_vec)\<close> do.
\<close>

fun partition_vecs ::
  "nat \<Rightarrow> 'a::linorder list \<Rightarrow> arrsize_t \<Rightarrow> arrsize_t \<Rightarrow> 'a list list \<Rightarrow> 'a list \<Rightarrow> 'a list \<Rightarrow> 'a list
     \<Rightarrow> ('a list \<times> arrsize_t \<times> arrsize_t \<times> 'a list \<times> 'a list) option" where
  "partition_vecs lanes arr l_store unpartitioned [] pivot_vec min_vec max_vec =
     Some (arr, l_store, unpartitioned, min_vec, max_vec)"
| "partition_vecs lanes arr l_store unpartitioned (v # vs) pivot_vec min_vec max_vec =
     (case partition_vec lanes arr l_store unpartitioned v pivot_vec min_vec max_vec of
        None \<Rightarrow> None
      | Some (arr', l_store', unpartitioned', min_vec', max_vec') \<Rightarrow>
          partition_vecs lanes arr' l_store' unpartitioned' vs pivot_vec min_vec' max_vec')"

text \<open>
  The stack buffer \<^verbatim>\<open>type_t buffer[num_unroll * numlanes]\<close> is the list of the cells stored
  in it so far; its length is the source's \<^verbatim>\<open>bufferStored\<close>. Every store to the buffer is at
  \<^verbatim>\<open>buffer + bufferStored\<close>, so it appends; a store beyond the capacity \<open>cap\<close> of the buffer
  is undefined behaviour.
\<close>

definition buffer_store :: "nat \<Rightarrow> 'a list \<Rightarrow> bool list \<Rightarrow> 'a list \<Rightarrow> 'a list option" where
  "buffer_store cap buffer m v =
     (if selected m v = [] then Some buffer
      else if length buffer + length (selected m v) \<le> cap then Some (buffer @ selected m v)
      else None)"

text \<open>
  The first loop of \<^verbatim>\<open>partition_avx512_unrolled\<close>,
  \<^verbatim>\<open>for (int i = 0; i < vecsToPartition; i++)\<close>: the register at \<open>left + i * numlanes\<close> is
  split, its lanes below the pivot stored at \<open>leftStore\<close>, the others appended to the buffer.
  The first argument counts the iterations still to run.
\<close>

fun unrolled_preamble ::
  "nat \<Rightarrow> nat \<Rightarrow> nat \<Rightarrow> 'a::linorder list \<Rightarrow> arrsize_t \<Rightarrow> nat \<Rightarrow> 'a list \<Rightarrow> 'a list \<Rightarrow> arrsize_t
     \<Rightarrow> 'a list \<Rightarrow> 'a list \<Rightarrow> ('a list \<times> 'a list \<times> arrsize_t \<times> 'a list \<times> 'a list) option" where
  "unrolled_preamble 0 lanes cap pivot_vec left i arr buffer leftStore min_vec max_vec =
     Some (arr, buffer, leftStore, min_vec, max_vec)"
| "unrolled_preamble (Suc k) lanes cap pivot_vec left i arr buffer leftStore min_vec max_vec =
     (case loadu lanes arr (left + i * lanes) of
        None \<Rightarrow> None
      | Some curr_vec \<Rightarrow>
          (let ge_mask = ge curr_vec pivot_vec;
               amount_ge_pivot = popcnt ge_mask
           in case mask_compressstoreu arr leftStore (knot_opmask ge_mask) curr_vec of
                None \<Rightarrow> None
              | Some arr' \<Rightarrow>
                  (case buffer_store cap buffer ge_mask curr_vec of
                     None \<Rightarrow> None
                   | Some buffer' \<Rightarrow>
                       unrolled_preamble k lanes cap pivot_vec left (i + 1) arr' buffer'
                         (leftStore + (lanes - amount_ge_pivot))
                         (vtype_min curr_vec min_vec) (vtype_max curr_vec max_vec))))"

text \<open>
  \<^verbatim>\<open>std::memcpy(arr + dst, arr + src, n * sizeof(type_t))\<close> inside the array: copying
  between ranges that overlap is undefined behaviour.
\<close>

definition memcpy_cells :: "'a list \<Rightarrow> arrsize_t \<Rightarrow> arrsize_t \<Rightarrow> nat \<Rightarrow> 'a list option" where
  "memcpy_cells arr dst src n =
     (if n = 0 then Some arr
      else if src + n \<le> length arr \<and> dst + n \<le> length arr \<and> (dst + n \<le> src \<or> src + n \<le> dst)
      then store_cells arr dst (take n (drop src arr))
      else None)"

text \<open>
  The main loop of \<^verbatim>\<open>partition_avx512_unrolled\<close>: \<^verbatim>\<open>while (right - left != 0)\<close>, with
  \<open>num_unroll\<close> registers loaded from one side and partitioned in each round.
\<close>

partial_function (option) partition_loop_unrolled ::
  "nat \<Rightarrow> nat \<Rightarrow> 'a::linorder list \<Rightarrow> 'a list \<Rightarrow> arrsize_t \<Rightarrow> arrsize_t \<Rightarrow> arrsize_t \<Rightarrow> arrsize_t
     \<Rightarrow> 'a list \<Rightarrow> 'a list
     \<Rightarrow> ('a list \<times> arrsize_t \<times> arrsize_t \<times> 'a list \<times> 'a list) option" where
  "partition_loop_unrolled lanes num_unroll pivot_vec arr left right l_store unpartitioned
       min_vec max_vec =
     (if sz_sub right left \<noteq> 0 then
        (if sz_sub (l_store + unpartitioned + lanes) right < sz_sub left l_store then
           (case load_regs lanes arr
                   (map (\<lambda>ii. sz_sub right (num_unroll * lanes) + ii * lanes) [0..<num_unroll]) of
              None \<Rightarrow> None
            | Some curr_vec \<Rightarrow>
                (case partition_vecs lanes arr l_store unpartitioned curr_vec pivot_vec
                        min_vec max_vec of
                   None \<Rightarrow> None
                 | Some (arr', l_store', unpartitioned', min_vec', max_vec') \<Rightarrow>
                     partition_loop_unrolled lanes num_unroll pivot_vec arr' left
                       (sz_sub right (num_unroll * lanes)) l_store' unpartitioned'
                       min_vec' max_vec'))
         else
           (case load_regs lanes arr (map (\<lambda>ii. left + ii * lanes) [0..<num_unroll]) of
              None \<Rightarrow> None
            | Some curr_vec \<Rightarrow>
                (case partition_vecs lanes arr l_store unpartitioned curr_vec pivot_vec
                        min_vec max_vec of
                   None \<Rightarrow> None
                 | Some (arr', l_store', unpartitioned', min_vec', max_vec') \<Rightarrow>
                     partition_loop_unrolled lanes num_unroll pivot_vec arr'
                       (left + num_unroll * lanes) right l_store' unpartitioned'
                       min_vec' max_vec')))
      else Some (arr, l_store, unpartitioned, min_vec, max_vec))"

text \<open>
  \<^verbatim>\<open>partition_avx512_unrolled<vtype, num_unroll>(arr, left, right, pivot, smallest, biggest)\<close>.
  The result holds the array, the index returned, and \<^verbatim>\<open>*smallest\<close> and \<^verbatim>\<open>*biggest\<close>
  at return.
\<close>

definition partition_avx512_unrolled ::
  "nat \<Rightarrow> nat \<Rightarrow> 'a::linorder list \<Rightarrow> arrsize_t \<Rightarrow> arrsize_t \<Rightarrow> 'a \<Rightarrow> 'a \<Rightarrow> 'a
     \<Rightarrow> ('a list \<times> arrsize_t \<times> 'a \<times> 'a) option" where
  "partition_avx512_unrolled lanes num_unroll arr0 left0 right0 pivot smallest0 biggest0 =
     (if num_unroll = 0
      then partition_avx512 lanes arr0 left0 right0 pivot smallest0 biggest0
      else
        (case partition_align (sz_sub right0 left0 mod lanes) pivot arr0 left0 right0
                smallest0 biggest0 of
           None \<Rightarrow> None
         | Some (arr, left, right, smallest, biggest) \<Rightarrow>
             if left = right then Some (arr, left, smallest, biggest)
             else
               (let pivot_vec = set1 lanes pivot;
                    min_vec = set1 lanes smallest;
                    max_vec = set1 lanes biggest;
                    vecsToPartition = (sz_sub right left div lanes) mod num_unroll
                in case unrolled_preamble vecsToPartition lanes (num_unroll * lanes) pivot_vec
                          left 0 arr [] left min_vec max_vec of
                     None \<Rightarrow> None
                   | Some (arr1, buffer, leftStore, min_vec1, max_vec1) \<Rightarrow>
                       (let smallest1 = reducemin min_vec1;
                            biggest1 = reducemax max_vec1;
                            bufferStored = length buffer
                        in case memcpy_cells arr1 leftStore (sz_sub right bufferStored)
                                  bufferStored of
                             None \<Rightarrow> None
                           | Some arr2 \<Rightarrow>
                               (case store_cells arr2 (sz_sub right bufferStored) buffer of
                                  None \<Rightarrow> None
                                | Some arr3 \<Rightarrow>
                                    (let left1 = left + (vecsToPartition * lanes - bufferStored);
                                         right1 = sz_sub right bufferStored
                                     in if left1 = right1
                                        then Some (arr3, left1, smallest1, biggest1)
                                        else
                                          (case load_regs lanes arr3
                                                  (map (\<lambda>ii. left1 + lanes * ii)
                                                     [0..<num_unroll]) of
                                             None \<Rightarrow> None
                                           | Some vec_left \<Rightarrow>
                                          (case load_regs lanes arr3
                                                  (map (\<lambda>ii. sz_sub right1
                                                                (lanes * (num_unroll - ii)))
                                                     [0..<num_unroll]) of
                                             None \<Rightarrow> None
                                           | Some vec_right \<Rightarrow>
                                          (case partition_loop_unrolled lanes num_unroll pivot_vec
                                                  arr3 (left1 + num_unroll * lanes)
                                                  (sz_sub right1 (num_unroll * lanes)) left1
                                                  (sz_sub (sz_sub right1 left1) lanes)
                                                  min_vec1 max_vec1 of
                                             None \<Rightarrow> None
                                           | Some (arr4, l_store4, unpartitioned4, min_vec4,
                                                   max_vec4) \<Rightarrow>
                                          (case partition_vecs lanes arr4 l_store4 unpartitioned4
                                                  vec_left pivot_vec min_vec4 max_vec4 of
                                             None \<Rightarrow> None
                                           | Some (arr5, l_store5, unpartitioned5, min_vec5,
                                                   max_vec5) \<Rightarrow>
                                          (case partition_vecs lanes arr5 l_store5 unpartitioned5
                                                  vec_right pivot_vec min_vec5 max_vec5 of
                                             None \<Rightarrow> None
                                           | Some (arr6, l_store6, unpartitioned6, min_vec6,
                                                   max_vec6) \<Rightarrow>
                                               Some (arr6, l_store6, reducemin min_vec6,
                                                     reducemax max_vec6))))))))))))"

text \<open>
  The running extremes while cells wait in the buffer: the cells stored on either side
  and the cells of the buffer are accounted for.
\<close>

definition ext_buf ::
  "'a::linorder \<Rightarrow> 'a \<Rightarrow> nat \<Rightarrow> nat \<Rightarrow> 'a list \<Rightarrow> nat \<Rightarrow> nat \<Rightarrow> 'a list \<Rightarrow> 'a \<Rightarrow> 'a \<Rightarrow> bool" where
  "ext_buf s0 b0 L R arr l_store r_store buffer s b \<longleftrightarrow>
     s = Min (insert s0 (set (seg arr L l_store) \<union> set (seg arr r_store R) \<union> set buffer)) \<and>
     b = Max (insert b0 (set (seg arr L l_store) \<union> set (seg arr r_store R) \<union> set buffer))"

text \<open>
  The cells of the array at the given positions, in that order; a position outside the
  array is an out-of-bounds read.
\<close>

definition read_cells :: "'a list \<Rightarrow> arrsize_t list \<Rightarrow> 'a list option" where
  "read_cells arr idxs = (if list_all (\<lambda>i. i < length arr) idxs then Some (map (\<lambda>i. arr ! i) idxs) else None)"

text \<open>
  \<^verbatim>\<open>get_pivot_scalar\<close>: \<open>numlanes\<close> samples \<^verbatim>\<open>arr[left + i * delta]\<close>, \<open>i = 0, ..., numlanes - 1\<close>,
  with \<^verbatim>\<open>delta = (right - left) / numSamples\<close>; the lane \<open>numSamples / 2\<close> of the sorted
  register is returned.
\<close>

definition get_pivot_scalar :: "nat \<Rightarrow> 'a::linorder list \<Rightarrow> arrsize_t \<Rightarrow> arrsize_t \<Rightarrow> 'a option" where
  "get_pivot_scalar lanes arr left right =
     (let delta = sz_sub right left div lanes
      in case read_cells arr (map (\<lambda>i. left + i * delta) [0..<lanes]) of
           None \<Rightarrow> None
         | Some samples \<Rightarrow> Some (sort_vec samples ! (lanes div 2)))"

text \<open>
  \<^verbatim>\<open>get_pivot_16bit\<close>, ``median of 32'': \<^verbatim>\<open>size = (right - left) / 32\<close>, the 32 samples
  \<^verbatim>\<open>arr[left], arr[left + size], arr[left + 2 * size], ..., arr[left + 31 * size]\<close>, and
  lane 16 of the sorted register.
\<close>

definition get_pivot_16bit :: "'a::linorder list \<Rightarrow> arrsize_t \<Rightarrow> arrsize_t \<Rightarrow> 'a option" where
  "get_pivot_16bit arr left right =
     (let size' = sz_sub right left div 32
      in case read_cells arr (left # map (\<lambda>i. left + i * size') [1..<32]) of
           None \<Rightarrow> None
         | Some vec_arr \<Rightarrow> Some (sort_vec vec_arr ! 16))"

text \<open>
  \<^verbatim>\<open>get_pivot_32bit\<close>, ``median of 16'': \<^verbatim>\<open>size = (right - left) / 16\<close>, the 16 samples
  \<^verbatim>\<open>arr[left + size], arr[left + 2 * size], ..., arr[left + 16 * size]\<close>, and lane 8 of the
  sorted register.
\<close>

definition get_pivot_32bit :: "'a::linorder list \<Rightarrow> arrsize_t \<Rightarrow> arrsize_t \<Rightarrow> 'a option" where
  "get_pivot_32bit arr left right =
     (let size' = sz_sub right left div 16
      in case read_cells arr (map (\<lambda>i. left + i * size') [1..<17]) of
           None \<Rightarrow> None
         | Some vec_arr \<Rightarrow> Some (sort_vec vec_arr ! 8))"

text \<open>
  \<^verbatim>\<open>get_pivot_64bit\<close>, ``median of 8'': \<^verbatim>\<open>size = (right - left) / 8\<close>, the 8 samples
  \<^verbatim>\<open>arr[left + size], ..., arr[left + 8 * size]\<close> (the arguments of \<^verbatim>\<open>vtype::set\<close>; the order
  of the lanes does not matter to the sorted register), and lane 4 of the sorted register.
\<close>

definition get_pivot_64bit :: "'a::linorder list \<Rightarrow> arrsize_t \<Rightarrow> arrsize_t \<Rightarrow> 'a option" where
  "get_pivot_64bit arr left right =
     (let size' = sz_sub right left div 8
      in case read_cells arr (map (\<lambda>i. left + i * size') [1..<9]) of
           None \<Rightarrow> None
         | Some rand_vec \<Rightarrow> Some (sort_vec rand_vec ! 4))"

text \<open>\<^verbatim>\<open>get_pivot\<close>: the sampler is chosen by \<^verbatim>\<open>vtype::numlanes\<close>.\<close>

definition get_pivot :: "nat \<Rightarrow> 'a::linorder list \<Rightarrow> arrsize_t \<Rightarrow> arrsize_t \<Rightarrow> 'a option" where
  "get_pivot lanes arr left right =
     (if lanes = 8 then get_pivot_64bit arr left right
      else if lanes = 16 then get_pivot_32bit arr left right
      else if lanes = 32 then get_pivot_16bit arr left right
      else get_pivot_scalar lanes arr left right)"

text \<open>
  The sampler for 16-bit keys as the specification words it: the sample is drawn at the
  positions \<open>left + size * i\<close> for \<open>i = 1, ..., 32\<close> and the element at index 16 of the
  sorted sample is returned.
\<close>

definition spec_pivot_16bit :: "'a::linorder list \<Rightarrow> arrsize_t \<Rightarrow> arrsize_t \<Rightarrow> 'a option" where
  "spec_pivot_16bit arr left right =
     (let size' = (right - left) div 32
      in case read_cells arr (map (\<lambda>i. left + size' * i) [1..<33]) of
           None \<Rightarrow> None
         | Some sample \<Rightarrow> Some (sort sample ! 16))"

section \<open>The drivers\<close>

text \<open>
  Modelled from the spec: the order the pack's comparisons implement on floating-point
  cells (section 4.1: ``the ordering \<open>-\<infinity> < finite < +\<infinity>\<close> for floats (NaNs are already
  replaced by +\<open>\<infinity>\<close> before partition begins)''). The kernels compare floating-point cells
  only after the NaNs of the range have been replaced, so only the order of the numbers is
  ever used: it is the order of \<open>'v\<close>. NaN cells are put above every number (section 4.8:
  ``NaNs are at least as large as +\<open>\<infinity>\<close>''), which makes the order total; no result below
  depends on how two cells compare when one of them is a NaN.
\<close>

instantiation fp :: (linorder) linorder

begin

fun less_eq_fp :: "'a fp \<Rightarrow> 'a fp \<Rightarrow> bool" where
  "less_eq_fp (Num a) (Num b) = (a \<le> b)"
| "less_eq_fp (Num a) (NaN q) = True"
| "less_eq_fp (NaN p) (Num b) = False"
| "less_eq_fp (NaN p) (NaN q) = (p \<le> q)"

definition less_fp :: "'a fp \<Rightarrow> 'a fp \<Rightarrow> bool" where
  "less_fp x y = (x \<le> y \<and> \<not> y \<le> x)"

instance
proof
  fix x y z :: "'a fp"
  show "(x < y) = (x \<le> y \<and> \<not> y \<le> x)" by (simp add: less_fp_def)
  show "x \<le> x" by (cases x) simp_all
  show "x \<le> y \<Longrightarrow> y \<le> z \<Longrightarrow> x \<le> z" by (cases x; cases y; cases z) simp_all
  show "x \<le> y \<Longrightarrow> y \<le> x \<Longrightarrow> x = y" by (cases x; cases y) simp_all
  show "x \<le> y \<or> y \<le> x" by (cases x; cases y) auto
qed

end

text \<open>
  Modelled from the spec: \<^verbatim>\<open>get_partial_loadmask(n)\<close>, the mask with the low \<open>n\<close> bits set.
\<close>

definition get_partial_loadmask :: "nat \<Rightarrow> nat \<Rightarrow> bool list" where
  "get_partial_loadmask lanes n = map (\<lambda>j. j < n) [0..<lanes]"

text \<open>
  Modelled from the spec: \<^verbatim>\<open>maskz_loadu(M, ptr)\<close> reads the lanes in \<open>M\<close>; the lanes not in
  \<open>M\<close> touch no memory and read as the fill value (\<^verbatim>\<open>type_max\<close> in the specification).
\<close>

definition maskz_loadu :: "'a \<Rightarrow> bool list \<Rightarrow> 'a list \<Rightarrow> arrsize_t \<Rightarrow> 'a list option" where
  "maskz_loadu fill m arr i =
     (if list_all (\<lambda>j. if m ! j then i + j < length arr else True) [0..<length m]
      then Some (map (\<lambda>j. if m ! j then arr ! (i + j) else fill) [0..<length m])
      else None)"

text \<open>
  Modelled from the spec: \<^verbatim>\<open>mask_storeu(ptr, M, R)\<close> writes only the lanes in \<open>M\<close>, lane \<open>j\<close>
  to the cell \<open>ptr + j\<close>.
\<close>

definition mask_storeu :: "'a list \<Rightarrow> arrsize_t \<Rightarrow> bool list \<Rightarrow> 'a list \<Rightarrow> 'a list option" where
  "mask_storeu arr i m v =
     (if list_all (\<lambda>j. if m ! j then i + j < length arr else True) [0..<length m]
      then Some (map (\<lambda>k. if i \<le> k \<and> k < i + length m \<and> m ! (k - i) then v ! (k - i) else arr ! k)
                   [0..<length arr])
      else None)"

text \<open>
  Modelled from the spec: \<^verbatim>\<open>fpclass<0x01 | 0x80>(R)\<close>, the mask of the lanes that hold a NaN
  (quiet or signaling).
\<close>

definition fpclass :: "'v fp list \<Rightarrow> bool list" where
  "fpclass v = map is_a_nan v"

text \<open>
  The loop of \<^verbatim>\<open>replace_nan_with_inf\<close>:
  \<^verbatim>\<open>for (arrsize_t ii = 0; ii < size; ii = ii + vtype::numlanes)\<close>. A register is loaded at
  \<open>ii\<close> (under the partial mask when fewer than \<open>numlanes\<close> cells are left), its NaN lanes
  are counted and overwritten with \<^verbatim>\<open>vtype::zmm_max()\<close> (\<open>sz\<close> is the source's
  \<^verbatim>\<open>size\<close>). Modelled from the spec: \<^verbatim>\<open>zmm_max()\<close> is the register that holds
  \<^verbatim>\<open>type_max\<close> in every lane (section 4.8: the pre-pass ``writes \<^verbatim>\<open>type_max\<close> (i.e.,
  +\<open>\<infinity>\<close>) into every NaN position via \<^verbatim>\<open>mask_storeu\<close>'').
\<close>

partial_function (option) replace_nan_loop ::
  "nat \<Rightarrow> 'v fp \<Rightarrow> 'v fp list \<Rightarrow> arrsize_t \<Rightarrow> arrsize_t \<Rightarrow> arrsize_t
     \<Rightarrow> ('v fp list \<times> arrsize_t) option" where
  "replace_nan_loop lanes type_max arr sz ii nan_count =
     (if ii < sz then
        (case (if sz_sub sz ii < lanes
               then maskz_loadu type_max (get_partial_loadmask lanes (sz_sub sz ii)) arr ii
               else loadu lanes arr ii) of
           None \<Rightarrow> None
         | Some in_vec \<Rightarrow>
             (case mask_storeu arr ii (fpclass in_vec) (set1 lanes type_max) of
                None \<Rightarrow> None
              | Some arr' \<Rightarrow>
                  replace_nan_loop lanes type_max arr' sz (sz_add ii lanes)
                    (sz_add nan_count (popcnt (fpclass in_vec)))))
      else Some (arr, nan_count))"

text \<open>
  \<^verbatim>\<open>replace_nan_with_inf<vtype>(arr, size)\<close>: the array after the pass and the number of
  NaNs replaced.
\<close>

definition replace_nan_with_inf ::
  "nat \<Rightarrow> 'v fp \<Rightarrow> 'v fp list \<Rightarrow> arrsize_t \<Rightarrow> ('v fp list \<times> arrsize_t) option" where
  "replace_nan_with_inf lanes type_max arr sz = replace_nan_loop lanes type_max arr sz 0 0"

text \<open>
  \<^verbatim>\<open>replace_inf_with_nan(arr, size, nan_count)\<close> for a floating-point type:
  \<^verbatim>\<open>for (arrsize_t ii = size - 1; nan_count > 0; --ii) { arr[ii] = quiet_NaN();
  nan_count -= 1; }\<close>, with the value of \<^verbatim>\<open>nan_count\<close> as first argument of the loop.
\<close>

fun replace_inf_loop :: "arrsize_t \<Rightarrow> 'v fp list \<Rightarrow> arrsize_t \<Rightarrow> 'v fp list option" where
  "replace_inf_loop 0 arr ii = Some arr"
| "replace_inf_loop (Suc nan_count) arr ii =
     (if ii < length arr
      then replace_inf_loop nan_count (arr[ii := quiet_NaN]) (sz_sub ii 1)
      else None)"

definition replace_inf_with_nan :: "'v fp list \<Rightarrow> arrsize_t \<Rightarrow> arrsize_t \<Rightarrow> 'v fp list option" where
  "replace_inf_with_nan arr sz nan_count = replace_inf_loop nan_count arr (sz_sub sz 1)"

text \<open>
  Modelled from the spec: the scalar comparison sort of the fallback (section 4.6),
  \<^verbatim>\<open>std::sort(first, last, comparison_func<vtype>)\<close> of the standard library, on the cells
  \<open>first\<close> to \<open>lst - 1\<close> of the array: the cells of the range in increasing order, every
  other cell as it was. A range that ends before it starts or beyond the array is
  undefined behaviour.
\<close>

definition std_sort :: "'a::linorder list \<Rightarrow> arrsize_t \<Rightarrow> arrsize_t \<Rightarrow> 'a list option" where
  "std_sort arr first lst =
     (if first \<le> lst \<and> lst \<le> length arr
      then Some (take first arr @ sort (seg arr first lst) @ drop lst arr)
      else None)"

text \<open>
  Modelled from the spec: \<^verbatim>\<open>sort_n<vtype, maxN>(arr, N)\<close>, declared without a body in the
  source (section 4.2 of the specification): for any input of length \<open>N \<le> maxN\<close> the
  output is a permutation of the input that is sorted. The first argument of the source
  is the pointer \<^verbatim>\<open>arr + left\<close>; here the array and \<open>left\<close>.
\<close>

definition sort_n :: "nat \<Rightarrow> 'a::linorder list \<Rightarrow> arrsize_t \<Rightarrow> nat \<Rightarrow> 'a list option" where
  "sort_n maxN arr left n =
     (if n \<le> maxN \<and> left + n \<le> length arr
      then Some (take left arr @ sort (seg arr left (left + n)) @ drop (left + n) arr)
      else None)"

text \<open>
  Modelled from the spec: the depth budget is \<open>2 * \<lfloor>log2(N)\<rfloor>\<close> (section 3).
  \<^verbatim>\<open>(arrsize_t)log2(x)\<close> is the base-2 logarithm of the standard library, truncated. The
  logarithm of 0 is \<open>-\<infinity>\<close>, whose conversion to \<^verbatim>\<open>arrsize_t\<close> is undefined. (The library
  computes in double precision and may return the next integer for a size of more than 47
  bits just below a power of two; the quicksort driver is proved correct for every depth
  budget, see \<open>qsort_rec_sorts\<close>.)
\<close>

fun floor_log2 :: "nat \<Rightarrow> nat" where
  "floor_log2 n = (if n < 2 then 0 else Suc (floor_log2 (n div 2)))"

definition log2_sz :: "arrsize_t \<Rightarrow> arrsize_t option" where
  "log2_sz x = (if x = 0 then None else Some (floor_log2 x))"

text \<open>
  \<open>qsort_rec\<close> is \<^verbatim>\<open>qsort_<vtype, type_t>(arr, left, right, max_iters)\<close>, on the closed
  range \<open>left..right\<close>. \<^verbatim>\<open>get_pivot_blocks\<close> is declared without a body in the source: it is a
  parameter of the driver, any function of the array and the two bounds (the specification,
  section 9, asks only that it return a value of the range).
  \<^verbatim>\<open>right + 1\<close> and \<^verbatim>\<open>pivot_index - 1\<close> are computed in \<open>arrsize_t\<close>. The length handed
  to \<^verbatim>\<open>sort_n\<close> is at most the threshold, so the conversion to \<^verbatim>\<open>int32_t\<close> keeps it.
\<close>

fun qsort_rec ::
  "nat \<Rightarrow> nat \<Rightarrow> nat \<Rightarrow> 'a \<Rightarrow> 'a \<Rightarrow> ('a list \<Rightarrow> arrsize_t \<Rightarrow> arrsize_t \<Rightarrow> 'a)
     \<Rightarrow> 'a::linorder list \<Rightarrow> arrsize_t \<Rightarrow> arrsize_t \<Rightarrow> arrsize_t \<Rightarrow> 'a list option" where
  "qsort_rec lanes network_sort_threshold partition_unroll_factor type_max type_min
      get_pivot_blocks arr left right max_iters =
     (if max_iters \<le> 0 then std_sort arr left (sz_add right 1)
      else if sz_sub (sz_add right 1) left \<le> network_sort_threshold
      then sort_n network_sort_threshold arr left (sz_sub (sz_add right 1) left)
      else
        (case partition_avx512_unrolled lanes partition_unroll_factor arr left (sz_add right 1)
                (get_pivot_blocks arr left right) type_max type_min of
           None \<Rightarrow> None
         | Some (arr1, pivot_index, smallest, biggest) \<Rightarrow>
             (case (if get_pivot_blocks arr left right \<noteq> smallest
                    then qsort_rec lanes network_sort_threshold partition_unroll_factor type_max
                           type_min get_pivot_blocks arr1 left (sz_sub pivot_index 1)
                           (max_iters - 1)
                    else Some arr1) of
                None \<Rightarrow> None
              | Some arr2 \<Rightarrow>
                  if get_pivot_blocks arr left right \<noteq> biggest
                  then qsort_rec lanes network_sort_threshold partition_unroll_factor type_max
                         type_min get_pivot_blocks arr2 pivot_index right (max_iters - 1)
                  else Some arr2)))"

text \<open>
  \<open>qselect_rec\<close> is \<^verbatim>\<open>qselect_<vtype, type_t>(arr, pos, left, right, max_iters)\<close>; the
  pivot comes from \<^verbatim>\<open>get_pivot\<close>.
\<close>

fun qselect_rec ::
  "nat \<Rightarrow> nat \<Rightarrow> nat \<Rightarrow> 'a \<Rightarrow> 'a
     \<Rightarrow> 'a::linorder list \<Rightarrow> arrsize_t \<Rightarrow> arrsize_t \<Rightarrow> arrsize_t \<Rightarrow> arrsize_t \<Rightarrow> 'a list option" where
  "qselect_rec lanes network_sort_threshold partition_unroll_factor type_max type_min
      arr pos left right max_iters =
     (if max_iters \<le> 0 then std_sort arr left (sz_add right 1)
      else if sz_sub (sz_add right 1) left \<le> network_sort_threshold
      then sort_n network_sort_threshold arr left (sz_sub (sz_add right 1) left)
      else
        (case get_pivot lanes arr left right of
           None \<Rightarrow> None
         | Some pivot \<Rightarrow>
             (case partition_avx512_unrolled lanes partition_unroll_factor arr left
                     (sz_add right 1) pivot type_max type_min of
                None \<Rightarrow> None
              | Some (arr1, pivot_index, smallest, biggest) \<Rightarrow>
                  if pivot \<noteq> smallest \<and> pos < pivot_index
                  then qselect_rec lanes network_sort_threshold partition_unroll_factor type_max
                         type_min arr1 pos left (sz_sub pivot_index 1) (max_iters - 1)
                  else if pivot \<noteq> biggest \<and> pos \<ge> pivot_index
                  then qselect_rec lanes network_sort_threshold partition_unroll_factor type_max
                         type_min arr1 pos pivot_index right (max_iters - 1)
                  else Some arr1)))"

text \<open>
  \<^verbatim>\<open>avx512_qsort<T>(arr, arrsize)\<close> for a type \<open>T\<close> that is not floating-point (the
  \<^verbatim>\<open>else\<close> branch of \<^verbatim>\<open>if constexpr (std::is_floating_point_v<T>)\<close>). The constants of the
  pack \<^verbatim>\<open>zmm_vector<T>\<close> are the first five arguments.
\<close>

definition avx512_qsort ::
  "nat \<Rightarrow> nat \<Rightarrow> nat \<Rightarrow> 'a \<Rightarrow> 'a \<Rightarrow> ('a list \<Rightarrow> arrsize_t \<Rightarrow> arrsize_t \<Rightarrow> 'a)
     \<Rightarrow> 'a::linorder list \<Rightarrow> arrsize_t \<Rightarrow> 'a list option" where
  "avx512_qsort lanes network_sort_threshold partition_unroll_factor type_max type_min
      get_pivot_blocks arr arrsize =
     (if arrsize > 1 then
        (case log2_sz arrsize of
           None \<Rightarrow> None
         | Some l \<Rightarrow>
             qsort_rec lanes network_sort_threshold partition_unroll_factor type_max type_min
               get_pivot_blocks arr 0 (sz_sub arrsize 1) (2 * l))
      else Some arr)"

text \<open>
  \<^verbatim>\<open>avx512_qsort<T>(arr, arrsize)\<close> for a floating-point type \<open>T\<close>: the NaNs are replaced
  by \<^verbatim>\<open>type_max\<close> and counted, the array is sorted, and the last \<open>nan_count\<close> cells are
  overwritten with the quiet NaN.
\<close>

definition avx512_qsort_float ::
  "nat \<Rightarrow> nat \<Rightarrow> nat \<Rightarrow> 'v fp \<Rightarrow> 'v fp \<Rightarrow> ('v fp list \<Rightarrow> arrsize_t \<Rightarrow> arrsize_t \<Rightarrow> 'v fp)
     \<Rightarrow> 'v::linorder fp list \<Rightarrow> arrsize_t \<Rightarrow> 'v fp list option" where
  "avx512_qsort_float lanes network_sort_threshold partition_unroll_factor type_max type_min
      get_pivot_blocks arr arrsize =
     (if arrsize > 1 then
        (case replace_nan_with_inf lanes type_max arr arrsize of
           None \<Rightarrow> None
         | Some (arr1, nan_count) \<Rightarrow>
             (case log2_sz arrsize of
                None \<Rightarrow> None
              | Some l \<Rightarrow>
                  (case qsort_rec lanes network_sort_threshold partition_unroll_factor type_max
                          type_min get_pivot_blocks arr1 0 (sz_sub arrsize 1) (2 * l) of
                     None \<Rightarrow> None
                   | Some arr2 \<Rightarrow> replace_inf_with_nan arr2 arrsize nan_count)))
      else Some arr)"

text \<open>
  \<^verbatim>\<open>avx512_qselect<T>(arr, k, arrsize, hasnan)\<close> for a type \<open>T\<close> that is not floating-point:
  \<^verbatim>\<open>hasnan\<close> is unused.
\<close>

definition avx512_qselect ::
  "nat \<Rightarrow> nat \<Rightarrow> nat \<Rightarrow> 'a \<Rightarrow> 'a \<Rightarrow> 'a::linorder list \<Rightarrow> arrsize_t \<Rightarrow> arrsize_t \<Rightarrow> 'a list option" where
  "avx512_qselect lanes network_sort_threshold partition_unroll_factor type_max type_min
      arr k arrsize =
     (if sz_sub arrsize 1 \<ge> k then
        (case log2_sz (sz_sub arrsize 1) of
           None \<Rightarrow> None
         | Some l \<Rightarrow>
             qselect_rec lanes network_sort_threshold partition_unroll_factor type_max type_min
               arr k 0 (sz_sub arrsize 1) (2 * l))
      else Some arr)"

text \<open>
  \<^verbatim>\<open>avx512_partial_qsort<T>(arr, k, arrsize, hasnan)\<close> for a type \<open>T\<close> that is not
  floating-point; \<^verbatim>\<open>k - 1\<close> is computed in \<open>arrsize_t\<close>.
\<close>

definition avx512_partial_qsort ::
  "nat \<Rightarrow> nat \<Rightarrow> nat \<Rightarrow> 'a \<Rightarrow> 'a \<Rightarrow> ('a list \<Rightarrow> arrsize_t \<Rightarrow> arrsize_t \<Rightarrow> 'a)
     \<Rightarrow> 'a::linorder list \<Rightarrow> arrsize_t \<Rightarrow> arrsize_t \<Rightarrow> 'a list option" where
  "avx512_partial_qsort lanes network_sort_threshold partition_unroll_factor type_max type_min
      get_pivot_blocks arr k arrsize =
     (case avx512_qselect lanes network_sort_threshold partition_unroll_factor type_max type_min
             arr (sz_sub k 1) arrsize of
        None \<Rightarrow> None
      | Some arr1 \<Rightarrow>
          avx512_qsort lanes network_sort_threshold partition_unroll_factor type_max type_min
            get_pivot_blocks arr1 (sz_sub k 1))"

section \<open>The key-index partition\<close>

text \<open>
  \<^verbatim>\<open>partition_vec<vtype1, vtype2>(keys, indexes, left, right, keys_vec, indexes_vec,
  pivot_vec, smallest_vec, biggest_vec)\<close>: the lanes of both registers whose key is below
  the pivot are stored at \<open>left\<close>, the others at \<^verbatim>\<open>right - amount_gt_pivot\<close>, with the same
  mask for the keys and the indexes. The result holds the two arrays, the value returned
  and the two registers passed by pointer.
\<close>

definition partition_vec_kv ::
  "'a::linorder list \<Rightarrow> 'b list \<Rightarrow> arrsize_t \<Rightarrow> arrsize_t \<Rightarrow> 'a list \<Rightarrow> 'b list \<Rightarrow> 'a list
     \<Rightarrow> 'a list \<Rightarrow> 'a list \<Rightarrow> ('a list \<times> 'b list \<times> nat \<times> 'a list \<times> 'a list) option" where
  "partition_vec_kv keys indexes left right keys_vec indexes_vec pivot_vec smallest_vec
      biggest_vec =
     (let gt_mask = ge keys_vec pivot_vec;
          amount_gt_pivot = popcnt gt_mask
      in case mask_compressstoreu keys left (knot_opmask gt_mask) keys_vec of
           None \<Rightarrow> None
         | Some keys1 \<Rightarrow>
             (case mask_compressstoreu keys1 (sz_sub right amount_gt_pivot) gt_mask keys_vec of
                None \<Rightarrow> None
              | Some keys2 \<Rightarrow>
                  (case mask_compressstoreu indexes left (knot_opmask gt_mask) indexes_vec of
                     None \<Rightarrow> None
                   | Some indexes1 \<Rightarrow>
                       (case mask_compressstoreu indexes1 (sz_sub right amount_gt_pivot)
                               gt_mask indexes_vec of
                          None \<Rightarrow> None
                        | Some indexes2 \<Rightarrow>
                            Some (keys2, indexes2, amount_gt_pivot,
                                  vtype_min keys_vec smallest_vec,
                                  vtype_max keys_vec biggest_vec)))))"

text \<open>
  The scalar loop of the key-index \<^verbatim>\<open>partition_avx512\<close>:
  \<^verbatim>\<open>for (int32_t i = (right - left) % numlanes; i > 0; --i) { *smallest = std::min(*smallest,
  keys[left]); *biggest = std::max(*biggest, keys[left]); if (keys[left] > pivot) { right--;
  std::swap(keys[left], keys[right]); std::swap(indexes[left], indexes[right]); }
  else { ++left; } }\<close>, with the number of iterations still to run as first argument. The
  test is \<^verbatim>\<open>keys[left] > pivot\<close>: a key equal to the pivot stays on the left.
\<close>

fun partition_align_kv ::
  "nat \<Rightarrow> 'a::linorder \<Rightarrow> 'a list \<Rightarrow> 'b list \<Rightarrow> arrsize_t \<Rightarrow> arrsize_t \<Rightarrow> 'a \<Rightarrow> 'a
     \<Rightarrow> ('a list \<times> 'b list \<times> arrsize_t \<times> arrsize_t \<times> 'a \<times> 'a) option" where
  "partition_align_kv 0 pivot keys indexes left right smallest biggest =
     Some (keys, indexes, left, right, smallest, biggest)"
| "partition_align_kv (Suc i) pivot keys indexes left right smallest biggest =
     (if left < length keys then
        (let smallest' = (if keys ! left < smallest then keys ! left else smallest);
             biggest' = (if biggest < keys ! left then keys ! left else biggest)
         in if pivot < keys ! left then
              (let right' = sz_sub right 1
               in if right' < length keys \<and> left < length indexes \<and> right' < length indexes
                  then partition_align_kv i pivot (swap_cells keys left right')
                         (swap_cells indexes left right') left right' smallest' biggest'
                  else None)
            else partition_align_kv i pivot keys indexes (left + 1) right smallest' biggest')
      else None)"

text \<open>
  The main loop of the key-index \<^verbatim>\<open>partition_avx512\<close>: \<^verbatim>\<open>while (right - left != 0)\<close>,
  one register of keys and one of indexes loaded from the same side, partitioned with
  \<^verbatim>\<open>partition_vec\<close> between \<open>l_store\<close> and \<^verbatim>\<open>r_store + numlanes\<close>.
\<close>

partial_function (option) partition_loop_kv ::
  "nat \<Rightarrow> 'a::linorder list \<Rightarrow> 'a list \<Rightarrow> 'b list \<Rightarrow> arrsize_t \<Rightarrow> arrsize_t \<Rightarrow> arrsize_t
     \<Rightarrow> arrsize_t \<Rightarrow> 'a list \<Rightarrow> 'a list
     \<Rightarrow> ('a list \<times> 'b list \<times> arrsize_t \<times> arrsize_t \<times> 'a list \<times> 'a list) option" where
  "partition_loop_kv lanes pivot_vec keys indexes left right l_store r_store min_vec max_vec =
     (if sz_sub right left \<noteq> 0 then
        (if sz_sub (sz_add r_store lanes) right < sz_sub left l_store then
           (case loadu lanes keys (sz_sub right lanes) of
              None \<Rightarrow> None
            | Some keys_vec \<Rightarrow>
                (case loadu lanes indexes (sz_sub right lanes) of
                   None \<Rightarrow> None
                 | Some indexes_vec \<Rightarrow>
                     (case partition_vec_kv keys indexes l_store (sz_add r_store lanes)
                             keys_vec indexes_vec pivot_vec min_vec max_vec of
                        None \<Rightarrow> None
                      | Some (keys', indexes', amount_gt_pivot, min_vec', max_vec') \<Rightarrow>
                          partition_loop_kv lanes pivot_vec keys' indexes' left
                            (sz_sub right lanes)
                            (sz_add l_store (lanes - amount_gt_pivot))
                            (sz_sub r_store amount_gt_pivot) min_vec' max_vec')))
         else
           (case loadu lanes keys left of
              None \<Rightarrow> None
            | Some keys_vec \<Rightarrow>
                (case loadu lanes indexes left of
                   None \<Rightarrow> None
                 | Some indexes_vec \<Rightarrow>
                     (case partition_vec_kv keys indexes l_store (sz_add r_store lanes)
                             keys_vec indexes_vec pivot_vec min_vec max_vec of
                        None \<Rightarrow> None
                      | Some (keys', indexes', amount_gt_pivot, min_vec', max_vec') \<Rightarrow>
                          partition_loop_kv lanes pivot_vec keys' indexes'
                            (sz_add left lanes) right
                            (sz_add l_store (lanes - amount_gt_pivot))
                            (sz_sub r_store amount_gt_pivot) min_vec' max_vec'))))
      else Some (keys, indexes, l_store, r_store, min_vec, max_vec))"

text \<open>
  The key-index overload \<^verbatim>\<open>partition_avx512<vtype1, vtype2>(keys, indexes, left, right,
  pivot, smallest, biggest)\<close>. The result holds the two arrays, the index returned, and
  \<^verbatim>\<open>*smallest\<close> and \<^verbatim>\<open>*biggest\<close> at return.
\<close>

definition partition_avx512_kv ::
  "nat \<Rightarrow> 'a::linorder list \<Rightarrow> 'b list \<Rightarrow> arrsize_t \<Rightarrow> arrsize_t \<Rightarrow> 'a \<Rightarrow> 'a \<Rightarrow> 'a
     \<Rightarrow> ('a list \<times> 'b list \<times> arrsize_t \<times> 'a \<times> 'a) option" where
  "partition_avx512_kv lanes keys0 indexes0 left0 right0 pivot smallest0 biggest0 =
     (case partition_align_kv (sz_sub right0 left0 mod lanes) pivot keys0 indexes0 left0 right0
             smallest0 biggest0 of
        None \<Rightarrow> None
      | Some (keys, indexes, left, right, smallest, biggest) \<Rightarrow>
          if left = right then Some (keys, indexes, left, smallest, biggest)
          else if sz_sub right left = lanes then
            (case loadu lanes keys left of
               None \<Rightarrow> None
             | Some keys_vec \<Rightarrow>
                 (case loadu lanes indexes left of
                    None \<Rightarrow> None
                  | Some indexes_vec \<Rightarrow>
                      (case partition_vec_kv keys indexes left (sz_add left lanes) keys_vec
                              indexes_vec (set1 lanes pivot) (set1 lanes smallest)
                              (set1 lanes biggest) of
                         None \<Rightarrow> None
                       | Some (keys', indexes', amount_gt_pivot, min_vec, max_vec) \<Rightarrow>
                           Some (keys', indexes', sz_add left (lanes - amount_gt_pivot),
                                 reducemin min_vec, reducemax max_vec))))
          else
            (case loadu lanes keys left of
               None \<Rightarrow> None
             | Some keys_vec_left \<Rightarrow>
             (case loadu lanes keys (sz_sub right lanes) of
               None \<Rightarrow> None
             | Some keys_vec_right \<Rightarrow>
             (case loadu lanes indexes left of
               None \<Rightarrow> None
             | Some indexes_vec_left \<Rightarrow>
             (case loadu lanes indexes (sz_sub right lanes) of
               None \<Rightarrow> None
             | Some indexes_vec_right \<Rightarrow>
             (case partition_loop_kv lanes (set1 lanes pivot) keys indexes (sz_add left lanes)
                     (sz_sub right lanes) left (sz_sub right lanes) (set1 lanes smallest)
                     (set1 lanes biggest) of
               None \<Rightarrow> None
             | Some (keys1, indexes1, l_store1, r_store1, min_vec1, max_vec1) \<Rightarrow>
             (case partition_vec_kv keys1 indexes1 l_store1 (sz_add r_store1 lanes)
                     keys_vec_left indexes_vec_left (set1 lanes pivot) min_vec1 max_vec1 of
               None \<Rightarrow> None
             | Some (keys2, indexes2, amount_gt_pivot2, min_vec2, max_vec2) \<Rightarrow>
             (case partition_vec_kv keys2 indexes2
                     (sz_add l_store1 (lanes - amount_gt_pivot2))
                     (sz_add (sz_add l_store1 (lanes - amount_gt_pivot2)) lanes)
                     keys_vec_right indexes_vec_right (set1 lanes pivot) min_vec2 max_vec2 of
               None \<Rightarrow> None
             | Some (keys3, indexes3, amount_gt_pivot3, min_vec3, max_vec3) \<Rightarrow>
                 Some (keys3, indexes3,
                       sz_add (sz_add l_store1 (lanes - amount_gt_pivot2))
                         (lanes - amount_gt_pivot3),
                       reducemin min_vec3, reducemax max_vec3)))))))))"

declare partition_loop_kv.simps [code]

declare replace_nan_loop.simps [code]

declare qsort_rec.simps [simp del]

declare qselect_rec.simps [simp del]

declare floor_log2.simps [simp del]

text \<open>The array with the cells \<open>a\<close> to \<open>b - 1\<close> in increasing order and every other cell as it was.\<close>

definition sorted_range :: "'a::linorder list \<Rightarrow> nat \<Rightarrow> nat \<Rightarrow> 'a list" where
  "sorted_range arr a b = take a arr @ sort (seg arr a b) @ drop b arr"

declare move_nans_loop.simps [simp del]

declare partition_loop.simps [code]

declare partition_loop_unrolled.simps [code]

section \<open>Facts about sizes\<close>

lemma sz_sub_exact: "b \<le> a \<Longrightarrow> a < 2 ^ 64 \<Longrightarrow> sz_sub a b = a - b"
proof -
  assume h: "b \<le> a" "a < 2 ^ 64"
  then have b: "b mod 2 ^ 64 = b" by simp
  have "(a + (2 ^ 64 - b)) = (a - b) + 2 ^ 64" using h by simp
  then have "(a + (2 ^ 64 - b)) mod 2 ^ 64 = (a - b) mod 2 ^ 64" by simp
  also have "\<dots> = a - b" using h by simp
  finally show ?thesis unfolding sz_sub_def b .
qed

lemma sz_sub_zero_one: "sz_sub 0 1 = 2 ^ 64 - 1"
  by (simp add: sz_sub_def)

lemma sz_add_exact: "a + b < 2 ^ 64 \<Longrightarrow> sz_add a b = a + b"
  by (simp add: sz_add_def)

section \<open>Moving NaNs to the end: correctness\<close>

lemma mset_take_swap_cells:
  assumes "i < n" "j < n" "n \<le> length arr"
  shows "mset (take n (swap_cells arr i j)) = mset (take n arr)"
proof -
  have a: "take n (swap_cells arr i j) = (take n arr)[i := take n arr ! j, j := take n arr ! i]"
    using assms by (simp add: swap_cells_def take_update_swap)
  have "mset ((take n arr)[i := take n arr ! j, j := take n arr ! i]) = mset (take n arr)"
    using assms by (intro mset_swap) simp_all
  then show ?thesis using a by simp
qed

lemma drop_swap_cells: "i < n \<Longrightarrow> j < n \<Longrightarrow> drop n (swap_cells arr i j) = drop n arr"
  by (simp add: swap_cells_def)

lemma length_swap_cells: "length (swap_cells arr i j) = length arr"
  by (simp add: swap_cells_def)

lemma nth_swap_cells:
  "i < length arr \<Longrightarrow> j < length arr \<Longrightarrow>
   swap_cells arr i j ! k = (if k = j then arr ! i else if k = i then arr ! j else arr ! k)"
  by (auto simp: swap_cells_def nth_list_update)

lemma move_nans_loop_inv:
  assumes "ii \<le> jj" "jj < n" "n \<le> length arr"
    and "\<forall>i<ii. \<not> is_a_nan (arr ! i)"
    and "\<forall>i. jj < i \<and> i < n \<longrightarrow> is_a_nan (arr ! i)"
  shows "\<exists>arr' k. move_nans_loop arr ii jj cnt = Some (arr', k, k, cnt + (jj - k))
           \<and> k \<le> jj \<and> length arr' = length arr
           \<and> mset (take n arr') = mset (take n arr) \<and> drop n arr' = drop n arr
           \<and> (\<forall>i<k. \<not> is_a_nan (arr' ! i))
           \<and> (\<forall>i. k < i \<and> i < n \<longrightarrow> is_a_nan (arr' ! i))"
  using assms
proof (induction arr ii jj cnt rule: move_nans_loop.induct)
  case (1 arr ii jj cnt)
  show ?case
  proof (cases "ii < jj")
    case False
    with "1.prems" have "ii = jj" by simp
    with "1.prems" show ?thesis by (subst move_nans_loop.simps) auto
  next
    case lt: True
    have jl: "jj < length arr" using "1.prems" by simp
    show ?thesis
    proof (cases "is_a_nan (arr ! ii)")
      case nan: True
      let ?a = "swap_cells arr ii jj"
      have p1: "ii \<le> jj - 1" "jj - 1 < n" "n \<le> length ?a"
        using lt "1.prems" by (simp_all add: length_swap_cells)
      have p2: "\<forall>i<ii. \<not> is_a_nan (?a ! i)"
        using lt jl "1.prems"(4) by (simp add: nth_swap_cells)
      have p3: "\<forall>i. jj - 1 < i \<and> i < n \<longrightarrow> is_a_nan (?a ! i)"
        using lt jl nan "1.prems"(5) by (auto simp: nth_swap_cells)
      from "1.IH"(1)[OF lt jl nan p1 p2 p3]
      obtain arr' k where r: "move_nans_loop ?a ii (jj - 1) (cnt + 1) = Some (arr', k, k, cnt + 1 + (jj - 1 - k))"
        "k \<le> jj - 1" "length arr' = length ?a"
        "mset (take n arr') = mset (take n ?a)" "drop n arr' = drop n ?a"
        "\<forall>i<k. \<not> is_a_nan (arr' ! i)" "\<forall>i. k < i \<and> i < n \<longrightarrow> is_a_nan (arr' ! i)"
        by blast
      have e: "cnt + 1 + (jj - 1 - k) = cnt + (jj - k)" using r(2) lt by simp
      have m: "mset (take n ?a) = mset (take n arr)"
        using lt "1.prems" by (intro mset_take_swap_cells) simp_all
      have d: "drop n ?a = drop n arr"
        using lt "1.prems" by (intro drop_swap_cells) simp_all
      have "move_nans_loop arr ii jj cnt = Some (arr', k, k, cnt + (jj - k))"
        using lt jl nan r(1) e by (subst move_nans_loop.simps) simp
      then show ?thesis using r m d lt by (auto simp: length_swap_cells)
    next
      case nonan: False
      have p1: "ii + 1 \<le> jj" "jj < n" "n \<le> length arr" using lt "1.prems" by simp_all
      have p2: "\<forall>i<ii + 1. \<not> is_a_nan (arr ! i)"
        using nonan "1.prems"(4) by (auto simp: less_Suc_eq)
      from "1.IH"(2)[OF lt jl nonan p1 p2 "1.prems"(5)]
      obtain arr' k where r: "move_nans_loop arr (ii + 1) jj cnt = Some (arr', k, k, cnt + (jj - k))"
        "k \<le> jj" "length arr' = length arr"
        "mset (take n arr') = mset (take n arr)" "drop n arr' = drop n arr"
        "\<forall>i<k. \<not> is_a_nan (arr' ! i)" "\<forall>i. k < i \<and> i < n \<longrightarrow> is_a_nan (arr' ! i)"
        by blast
      have "move_nans_loop arr ii jj cnt = Some (arr', k, k, cnt + (jj - k))"
        using lt jl nonan r(1) by (subst move_nans_loop.simps) simp
      then show ?thesis using r by auto
    qed
  qed
qed

lemma nan_count_of_suffix:
  assumes "m \<le> length xs" "\<forall>i<length xs. is_a_nan (xs ! i) \<longleftrightarrow> m \<le> i"
  shows "nan_count_of xs = length xs - m"
proof -
  have a: "filter is_a_nan (take m xs) = []"
    using assms by (auto simp: filter_empty_conv in_set_conv_nth)
  have b: "filter is_a_nan (drop m xs) = drop m xs"
    using assms by (auto simp: filter_id_conv in_set_conv_nth)
  have "filter is_a_nan xs = filter is_a_nan (take m xs) @ filter is_a_nan (drop m xs)"
    by (metis append_take_drop_id filter_append)
  then show ?thesis by (simp add: nan_count_of_def a b)
qed

lemma nan_count_of_mset: "mset xs = mset ys \<Longrightarrow> nan_count_of xs = nan_count_of ys"
  unfolding nan_count_of_def by (metis mset_filter size_mset)

text \<open>
  Claim C9 (as amended). For an array of \<open>n \<ge> 1\<close> floating-point cells,
  \<open>move_nans_to_end_of_array\<close> returns, touches no cell beyond the first \<open>n\<close>, keeps
  the multiset of the first \<open>n\<close> cells (so the number of NaNs too), and leaves the NaNs in
  exactly the last positions: cell \<open>i < n\<close> is a NaN iff \<open>i \<ge> n - c\<close>, where \<open>c\<close> is
  the number of NaNs. The value returned is \<open>n - c - 1\<close>, the index of the last cell
  that is not a NaN, when there is such a cell, and \<open>2^64 - 1\<close> when every cell is a NaN.
\<close>

theorem move_nans_spec:
  assumes "1 \<le> n" "n \<le> length arr" "n < 2 ^ 64"
  shows "\<exists>arr' r. move_nans_to_end_of_array arr n = Some (arr', r)
           \<and> length arr' = length arr \<and> drop n arr' = drop n arr
           \<and> mset (take n arr') = mset (take n arr)
           \<and> (\<forall>i<n. is_a_nan (arr' ! i) \<longleftrightarrow> n - nan_count_of (take n arr) \<le> i)
           \<and> r = (if nan_count_of (take n arr) < n then n - nan_count_of (take n arr) - 1
                    else 2 ^ 64 - 1)"
proof -
  let ?c = "nan_count_of (take n arr)"
  have j: "sz_sub n 1 = n - 1" using assms by (simp add: sz_sub_exact)
  have "\<exists>arr' k. move_nans_loop arr 0 (n - 1) 0 = Some (arr', k, k, 0 + (n - 1 - k))
           \<and> k \<le> n - 1 \<and> length arr' = length arr
           \<and> mset (take n arr') = mset (take n arr) \<and> drop n arr' = drop n arr
           \<and> (\<forall>i<k. \<not> is_a_nan (arr' ! i))
           \<and> (\<forall>i. k < i \<and> i < n \<longrightarrow> is_a_nan (arr' ! i))"
    using assms by (intro move_nans_loop_inv) auto
  then obtain arr' k where r: "move_nans_loop arr 0 (n - 1) 0 = Some (arr', k, k, n - 1 - k)"
    "k \<le> n - 1" "length arr' = length arr"
    "mset (take n arr') = mset (take n arr)" "drop n arr' = drop n arr"
    "\<forall>i<k. \<not> is_a_nan (arr' ! i)" "\<forall>i. k < i \<and> i < n \<longrightarrow> is_a_nan (arr' ! i)"
    by auto
  define m where "m = (if is_a_nan (arr' ! k) then k else k + 1)"
  have kn: "k < n" using r(2) assms by simp
  have mn: "m \<le> n" using kn by (simp add: m_def)
  have pos: "\<forall>i<n. is_a_nan (arr' ! i) \<longleftrightarrow> m \<le> i"
  proof (intro allI impI)
    fix i assume "i < n"
    consider "i < k" | "i = k" | "k < i" by linarith
    then show "is_a_nan (arr' ! i) \<longleftrightarrow> m \<le> i"
      using r(6,7) \<open>i < n\<close> by cases (auto simp: m_def)
  qed
  have "nan_count_of (take n arr') = length (take n arr') - m"
    using pos mn r(3) assms by (intro nan_count_of_suffix) auto
  then have c: "?c = n - m"
    using nan_count_of_mset[OF r(4)] r(3) assms by simp
  then have nm: "n - ?c = m" using mn by simp
  have cnt: "(if is_a_nan (arr' ! k) then (n - 1 - k) + 1 else n - 1 - k) = ?c"
    using kn unfolding c m_def by (cases "is_a_nan (arr' ! k)") simp_all
  have cle: "?c \<le> n" using c by simp
  have ret: "sz_sub (sz_sub n ?c) 1 = (if ?c < n then n - ?c - 1 else 2 ^ 64 - 1)"
  proof (cases "?c < n")
    case True
    then show ?thesis using assms by (simp add: sz_sub_exact)
  next
    case False
    with cle have cn: "?c = n" by simp
    have "sz_sub n n = 0" using assms by (simp add: sz_sub_exact)
    then show ?thesis unfolding cn by (simp only: sz_sub_zero_one less_irrefl if_False)
  qed
  have "move_nans_to_end_of_array arr n = Some (arr', sz_sub (sz_sub n ?c) 1)"
    unfolding move_nans_to_end_of_array_def j r(1) using kn r(3) assms cnt
    by (simp split: if_splits)
  then show ?thesis using r(3,4,5) pos nm ret by simp
qed

theorem move_nans_spec_witness:
  "1 \<le> (4::nat) \<and> 4 \<le> length [NaN 3, Num (5::int), NaN 1, Num 2]
   \<and> (\<exists>arr' r. move_nans_to_end_of_array [NaN 3, Num (5::int), NaN 1, Num 2] 4 = Some (arr', r)
          \<and> mset arr' = mset [NaN 3, Num 5, NaN 1, Num 2] \<and> r = 1)"
  using move_nans_spec [of 4 "[NaN 3, Num (5::int), NaN 1, Num 2]"]
  by (auto simp: nan_count_of_def)

text \<open>
  The claim as stated fails on an array of NaNs only: no cell holds a number, and the
  result is \<open>size - count - 1\<close> wrapped around, which is no index of the array.
\<close>

theorem move_nans_all_nan_counterexample:
  "move_nans_to_end_of_array [NaN 7 :: int fp] 1 = Some ([NaN 7], 2 ^ 64 - 1)"
  by (simp add: move_nans_to_end_of_array_def sz_sub_def move_nans_loop.simps)

section \<open>The partition kernel: correctness\<close>

lemma length_seg: "b \<le> length xs \<Longrightarrow> length (seg xs a b) = b - a"
  by (simp add: seg_def)

lemma seg_split: "a \<le> b \<Longrightarrow> b \<le> c \<Longrightarrow> seg xs a c = seg xs a b @ seg xs b c"
proof -
  assume h: "a \<le> b" "b \<le> c"
  then have "c - a = (b - a) + (c - b)" by simp
  then have "take (c - a) (drop a xs) = take (b - a) (drop a xs) @ take (c - b) (drop (b - a) (drop a xs))"
    by (simp only: take_add)
  then show ?thesis using h by (simp add: seg_def)
qed

lemma seg_empty: "seg xs a a = []"
  by (simp add: seg_def)

lemma seg_take: "seg xs 0 n = take n xs"
  by (simp add: seg_def)

lemma seg_drop: "seg xs n (length xs) = drop n xs"
  by (simp add: seg_def)

lemma seg_whole_parts:
  "a \<le> b \<Longrightarrow> b \<le> length xs \<Longrightarrow> xs = take a xs @ seg xs a b @ drop b xs"
proof -
  assume h: "a \<le> b" "b \<le> length xs"
  have "xs = seg xs 0 (length xs)" by (simp add: seg_def)
  also have "\<dots> = seg xs 0 a @ seg xs a (length xs)" using h by (intro seg_split) simp_all
  also have "seg xs a (length xs) = seg xs a b @ seg xs b (length xs)"
    using h by (intro seg_split) simp_all
  finally show ?thesis by (simp add: seg_take seg_drop)
qed

lemma loadu_Some: "i + lanes \<le> length arr \<Longrightarrow> loadu lanes arr i = Some (seg arr i (i + lanes))"
  by (simp add: loadu_def seg_def)

lemma store_cells_Some:
  "i + length xs \<le> length arr \<Longrightarrow> store_cells arr i xs = Some (stored arr i xs)"
  by (simp add: store_cells_def stored_def)

lemma length_stored: "i + length xs \<le> length arr \<Longrightarrow> length (stored arr i xs) = length arr"
  by (simp add: stored_def)

lemma take_stored:
  "k \<le> i \<Longrightarrow> i + length xs \<le> length arr \<Longrightarrow> take k (stored arr i xs) = take k arr"
  by (simp add: stored_def min_def)

lemma drop_stored:
  "i + length xs \<le> k \<Longrightarrow> i + length xs \<le> length arr \<Longrightarrow> drop k (stored arr i xs) = drop k arr"
  by (simp add: stored_def)

lemma seg_stored_before:
  "b \<le> i \<Longrightarrow> i + length xs \<le> length arr \<Longrightarrow> seg (stored arr i xs) a b = seg arr a b"
proof -
  assume h: "b \<le> i" "i + length xs \<le> length arr"
  have "seg (stored arr i xs) a b = drop a (take b (stored arr i xs))"
    by (simp add: seg_def drop_take)
  also have "\<dots> = drop a (take b arr)" using h by (simp add: take_stored)
  finally show ?thesis by (simp add: seg_def drop_take)
qed

lemma seg_stored_after:
  "i + length xs \<le> a \<Longrightarrow> i + length xs \<le> length arr \<Longrightarrow> seg (stored arr i xs) a b = seg arr a b"
  by (simp add: seg_def drop_stored)

lemma seg_stored_at:
  "i + length xs \<le> length arr \<Longrightarrow> seg (stored arr i xs) i (i + length xs) = xs"
  by (simp add: seg_def stored_def)

lemma selected_map: "selected (map f v) v = filter f v"
  by (induction v) (simp_all add: selected_def)

lemma ge_set1: "ge v (set1 (length v) p) = map (\<lambda>x. p \<le> x) v"
  by (induction v) (simp_all add: ge_def set1_def)

lemma knot_ge_set1: "knot_opmask (ge v (set1 (length v) p)) = map (\<lambda>x. x < p) v"
  by (simp add: ge_set1 knot_opmask_def not_le)

lemma popcnt_map: "popcnt (map f v) = length (filter f v)"
  by (induction v) (simp_all add: popcnt_def)

lemma length_filter_lt_ge:
  "length (filter (\<lambda>x. x < (p::'a::linorder)) v) + length (filter (\<lambda>x. p \<le> x) v) = length v"
proof -
  have "(\<lambda>x. p \<le> x) = (\<lambda>x. \<not> x < p)" by (auto simp: not_less)
  then show ?thesis using sum_length_filter_compl[of "\<lambda>x. x < p" v] by simp
qed

lemma mset_filter_lt_ge:
  "mset (filter (\<lambda>x. x < (p::'a::linorder)) v) + mset (filter (\<lambda>x. p \<le> x) v) = mset v"
proof -
  have "(\<lambda>x. p \<le> x) = (\<lambda>x. \<not> x < p)" by (auto simp: not_less)
  then show ?thesis by (simp add: mset_filter)
qed

text \<open>One register partitioned: where its lanes go.\<close>

lemma partition_vec_Some:
  fixes p :: "'a::linorder"
  assumes len: "length cv = lanes"
    and room: "l_store + lanes \<le> r_store" "r_store \<le> length arr" "length arr < 2 ^ 64"
    and unp: "unp = r_store - l_store - lanes"
  shows "partition_vec lanes arr l_store unp cv (set1 lanes p) minv maxv =
           Some (stored (stored arr l_store (filter (\<lambda>x. x < p) cv))
                        (r_store - length (filter (\<lambda>x. p \<le> x) cv)) (filter (\<lambda>x. p \<le> x) cv),
                 l_store + length (filter (\<lambda>x. x < p) cv),
                 sz_sub unp lanes, vtype_min cv minv, vtype_max cv maxv)"
proof -
  let ?lt = "filter (\<lambda>x. x < p) cv" and ?ge = "filter (\<lambda>x. p \<le> x) cv"
  have sum: "length ?lt + length ?ge = lanes" using length_filter_lt_ge[of p cv] len by simp
  have ge: "ge cv (set1 lanes p) = map (\<lambda>x. p \<le> x) cv" using ge_set1[of cv p] len by simp
  have s1: "mask_compressstoreu arr l_store (knot_opmask (ge cv (set1 lanes p))) cv
              = Some (stored arr l_store ?lt)"
    unfolding mask_compressstoreu_def ge using sum room
    by (simp add: knot_opmask_def selected_map[of "\<lambda>x. \<not> p \<le> x" cv, simplified not_le] 
        store_cells_Some comp_def not_le)
  have l1: "length (stored arr l_store ?lt) = length arr"
    using sum room by (intro length_stored) simp
  have pos: "l_store + (lanes - popcnt (ge cv (set1 lanes p))) + unp = r_store - length ?ge"
    unfolding ge popcnt_map unp using sum room by simp
  have s2: "mask_compressstoreu (stored arr l_store ?lt) (r_store - length ?ge)
              (ge cv (set1 lanes p)) cv
              = Some (stored (stored arr l_store ?lt) (r_store - length ?ge) ?ge)"
    unfolding mask_compressstoreu_def ge selected_map using sum room l1
    by (intro store_cells_Some) simp
  have nl: "lanes - popcnt (ge cv (set1 lanes p)) = length ?lt"
    unfolding ge popcnt_map using sum by simp
  have pos': "l_store + length ?lt + unp = r_store - length ?ge"
    using pos nl by simp
  show ?thesis
    unfolding partition_vec_def Let_def s1 option.case nl pos' s2 ..
qed

text \<open>The cells after one register is partitioned into a window with room on both sides.\<close>

lemma partition_vec_effect:
  fixes p :: "'a::linorder"
  assumes order: "L \<le> l_store" "l_store + length ls \<le> left" "left \<le> right"
      "right + length gs \<le> r_store" "r_store \<le> R" "R \<le> length arr"
  defines "arr' \<equiv> stored (stored arr l_store ls) (r_store - length gs) gs"
  shows "length arr' = length arr"
    and "take L arr' = take L arr"
    and "drop R arr' = drop R arr"
    and "seg arr' L (l_store + length ls) = seg arr L l_store @ ls"
    and "seg arr' left right = seg arr left right"
    and "seg arr' (r_store - length gs) R = gs @ seg arr r_store R"
proof -
  let ?a1 = "stored arr l_store ls"
  let ?r = "r_store - length gs"
  have b1: "l_store + length ls \<le> length arr" using order by simp
  have l1: "length ?a1 = length arr" using b1 by (rule length_stored)
  have b2: "?r + length gs \<le> length ?a1" using order l1 by simp
  have rr: "?r + length gs = r_store" using order by simp
  show "length arr' = length arr" unfolding arr'_def using b2 l1 by (simp add: length_stored)
  have "take L arr' = take L ?a1" unfolding arr'_def using order b2 by (intro take_stored) simp_all
  also have "\<dots> = take L arr" using order b1 by (intro take_stored) simp_all
  finally show "take L arr' = take L arr" .
  have "drop R arr' = drop R ?a1" unfolding arr'_def using order b2 by (intro drop_stored) simp_all
  also have "\<dots> = drop R arr" using order b1 by (intro drop_stored) simp_all
  finally show "drop R arr' = drop R arr" .
  have "seg arr' L (l_store + length ls) = seg ?a1 L (l_store + length ls)"
    unfolding arr'_def using order b2 by (intro seg_stored_before) simp_all
  also have "\<dots> = seg ?a1 L l_store @ seg ?a1 l_store (l_store + length ls)"
    using order by (intro seg_split) simp_all
  also have "seg ?a1 L l_store = seg arr L l_store"
    using b1 by (intro seg_stored_before) simp_all
  also have "seg ?a1 l_store (l_store + length ls) = ls"
    using b1 by (rule seg_stored_at)
  finally show "seg arr' L (l_store + length ls) = seg arr L l_store @ ls" .
  have "seg arr' left right = seg ?a1 left right"
    unfolding arr'_def using order b2 by (intro seg_stored_before) simp_all
  also have "\<dots> = seg arr left right"
    using order b1 by (intro seg_stored_after) simp_all
  finally show "seg arr' left right = seg arr left right" .
  have "seg arr' ?r R = seg arr' ?r (?r + length gs) @ seg arr' (?r + length gs) R"
    using order by (intro seg_split) simp_all
  also have "seg arr' ?r (?r + length gs) = gs"
    unfolding arr'_def using b2 by (rule seg_stored_at)
  also have "seg arr' (?r + length gs) R = seg ?a1 (?r + length gs) R"
    unfolding arr'_def using b2 by (intro seg_stored_after) simp_all
  also have "\<dots> = seg arr r_store R"
    unfolding rr using order b1 by (intro seg_stored_after) simp_all
  finally show "seg arr' ?r R = gs @ seg arr r_store R" .
qed

lemma part_inv_step:
  fixes p :: "'a::linorder"
  assumes inv: "part_inv p arr0 L R arr l_store left right r_store (mset cv + held)"
    and room: "l_store + length (filter (\<lambda>x. x < p) cv) \<le> left"
              "right + length (filter (\<lambda>x. p \<le> x) cv) \<le> r_store"
  shows "part_inv p arr0 L R
           (stored (stored arr l_store (filter (\<lambda>x. x < p) cv))
              (r_store - length (filter (\<lambda>x. p \<le> x) cv)) (filter (\<lambda>x. p \<le> x) cv))
           (l_store + length (filter (\<lambda>x. x < p) cv)) left right
           (r_store - length (filter (\<lambda>x. p \<le> x) cv)) held"
proof -
  let ?ls = "filter (\<lambda>x. x < p) cv" and ?gs = "filter (\<lambda>x. p \<le> x) cv"
  let ?arr' = "stored (stored arr l_store ?ls) (r_store - length ?gs) ?gs"
  have order: "L \<le> l_store" "l_store + length ?ls \<le> left" "left \<le> right"
      "right + length ?gs \<le> r_store" "r_store \<le> R" "R \<le> length arr"
    using inv room by (simp_all add: part_inv_def)
  note eff = partition_vec_effect[OF order]
  have m: "mset ?ls + mset ?gs = mset cv" by (rule mset_filter_lt_ge)
  have "mset (seg ?arr' L (l_store + length ?ls)) + mset (seg ?arr' left right)
          + mset (seg ?arr' (r_store - length ?gs) R) + held
        = mset (seg arr L l_store) + mset (seg arr left right) + mset (seg arr r_store R)
          + ((mset ?ls + mset ?gs) + held)"
    unfolding eff by simp
  also have "\<dots> = mset (seg arr0 L R)" unfolding m using inv by (simp add: part_inv_def)
  finally have ms: "mset (seg ?arr' L (l_store + length ?ls)) + mset (seg ?arr' left right)
          + mset (seg ?arr' (r_store - length ?gs) R) + held = mset (seg arr0 L R)" .
  have lo: "\<forall>x\<in>set (seg ?arr' L (l_store + length ?ls)). x < p"
    unfolding eff using inv by (auto simp: part_inv_def)
  have hi: "\<forall>x\<in>set (seg ?arr' (r_store - length ?gs) R). p \<le> x"
    unfolding eff using inv by (auto simp: part_inv_def)
  have fr: "length ?arr' = length arr0" "take L ?arr' = take L arr0" "drop R ?arr' = drop R arr0"
    unfolding eff using inv by (simp_all add: part_inv_def)
  have ord': "L \<le> l_store + length ?ls" "l_store + length ?ls \<le> left" "left \<le> right"
     "right \<le> r_store - length ?gs" "r_store - length ?gs \<le> R" "R \<le> length arr0"
    using order inv by (simp_all add: part_inv_def)
  show ?thesis
    unfolding part_inv_def using fr ord' lo hi ms by blast
qed

lemma ext_inv_step:
  fixes p :: "'a::linorder"
  assumes inv: "part_inv p arr0 L R arr l_store left right r_store held0"
    and ext: "ext_inv s0 b0 L R arr l_store r_store s b"
    and room: "l_store + length (filter (\<lambda>x. x < p) cv) \<le> left"
              "right + length (filter (\<lambda>x. p \<le> x) cv) \<le> r_store"
    and ne: "cv \<noteq> []"
  shows "ext_inv s0 b0 L R
           (stored (stored arr l_store (filter (\<lambda>x. x < p) cv))
              (r_store - length (filter (\<lambda>x. p \<le> x) cv)) (filter (\<lambda>x. p \<le> x) cv))
           (l_store + length (filter (\<lambda>x. x < p) cv))
           (r_store - length (filter (\<lambda>x. p \<le> x) cv))
           (min (Min (set cv)) s) (max (Max (set cv)) b)"
proof -
  let ?ls = "filter (\<lambda>x. x < p) cv" and ?gs = "filter (\<lambda>x. p \<le> x) cv"
  let ?arr' = "stored (stored arr l_store ?ls) (r_store - length ?gs) ?gs"
  let ?W = "set (seg arr L l_store) \<union> set (seg arr r_store R)"
  have order: "L \<le> l_store" "l_store + length ?ls \<le> left" "left \<le> right"
      "right + length ?gs \<le> r_store" "r_store \<le> R" "R \<le> length arr"
    using inv room by (simp_all add: part_inv_def)
  note eff = partition_vec_effect[OF order]
  have cvs: "set ?ls \<union> set ?gs = set cv" by auto
  have W': "set (seg ?arr' L (l_store + length ?ls)) \<union> set (seg ?arr' (r_store - length ?gs) R)
             = set cv \<union> ?W"
    unfolding eff using cvs by auto
  have fin: "finite (set cv)" "finite (insert s0 ?W)" "finite (insert b0 ?W)" by simp_all
  have nes: "set cv \<noteq> {}" using ne by simp
  have "Min (insert s0 (set cv \<union> ?W)) = Min (set cv \<union> insert s0 ?W)" by simp
  also have "\<dots> = min (Min (set cv)) (Min (insert s0 ?W))"
    using fin nes by (intro Min_Un) simp_all
  finally have a: "Min (insert s0 (set cv \<union> ?W)) = min (Min (set cv)) s"
    using ext by (simp add: ext_inv_def)
  have "Max (insert b0 (set cv \<union> ?W)) = Max (set cv \<union> insert b0 ?W)" by simp
  also have "\<dots> = max (Max (set cv)) (Max (insert b0 ?W))"
    using fin nes by (intro Max_Un) simp_all
  finally have b: "Max (insert b0 (set cv \<union> ?W)) = max (Max (set cv)) b"
    using ext by (simp add: ext_inv_def)
  show ?thesis unfolding ext_inv_def W' a b by simp
qed

lemma reducemin_Min: "v \<noteq> [] \<Longrightarrow> reducemin v = Min (set v)"
proof (cases v)
  case (Cons x xs)
  have "Min (set (x # xs)) = fold min xs x" by (rule Min.set_eq_fold)
  then show ?thesis by (simp only: reducemin_def Cons list.sel)
qed simp

lemma reducemax_Max: "v \<noteq> [] \<Longrightarrow> reducemax v = Max (set v)"
proof (cases v)
  case (Cons x xs)
  have "Max (set (x # xs)) = fold max xs x" by (rule Max.set_eq_fold)
  then show ?thesis by (simp only: reducemax_def Cons list.sel)
qed simp

lemma reducemin_set1: "0 < lanes \<Longrightarrow> reducemin (set1 lanes x) = x"
  by (simp add: reducemin_Min set1_def)

lemma reducemax_set1: "0 < lanes \<Longrightarrow> reducemax (set1 lanes x) = x"
  by (simp add: reducemax_Max set1_def)

lemma length_set1: "length (set1 lanes x) = lanes"
  by (simp add: set1_def)

lemma length_vtype_min: "length a = length b \<Longrightarrow> length (vtype_min a b) = length b"
  by (simp add: vtype_min_def)

lemma length_vtype_max: "length a = length b \<Longrightarrow> length (vtype_max a b) = length b"
  by (simp add: vtype_max_def)

lemma Min_map2_min:
  "length a = length b \<Longrightarrow> a \<noteq> [] \<Longrightarrow>
     Min (set (map2 min a b)) = min (Min (set a)) (Min (set (b::'a::linorder list)))"
proof (induction a b rule: list_induct2)
  case Nil
  then show ?case by simp
next
  case (Cons x xs y ys)
  show ?case
  proof (cases "xs = []")
    case True
    with Cons show ?thesis by simp
  next
    case False
    then have ys: "ys \<noteq> []" using Cons.hyps by auto
    have m: "map2 min xs ys \<noteq> []" using False ys by (cases xs; cases ys) simp_all
    have "Min (set (map2 min (x # xs) (y # ys))) = min (min x y) (Min (set (map2 min xs ys)))"
      using m by simp
    also have "\<dots> = min (min x y) (min (Min (set xs)) (Min (set ys)))"
      using Cons.IH False by simp
    also have "\<dots> = min (min x (Min (set xs))) (min y (Min (set ys)))"
      by (simp add: min.assoc min.left_commute)
    finally show ?thesis using False ys by simp
  qed
qed

lemma Max_map2_max:
  "length a = length b \<Longrightarrow> a \<noteq> [] \<Longrightarrow>
     Max (set (map2 max a b)) = max (Max (set a)) (Max (set (b::'a::linorder list)))"
proof (induction a b rule: list_induct2)
  case Nil
  then show ?case by simp
next
  case (Cons x xs y ys)
  show ?case
  proof (cases "xs = []")
    case True
    with Cons show ?thesis by simp
  next
    case False
    then have ys: "ys \<noteq> []" using Cons.hyps by auto
    have m: "map2 max xs ys \<noteq> []" using False ys by (cases xs; cases ys) simp_all
    have "Max (set (map2 max (x # xs) (y # ys))) = max (max x y) (Max (set (map2 max xs ys)))"
      using m by simp
    also have "\<dots> = max (max x y) (max (Max (set xs)) (Max (set ys)))"
      using Cons.IH False by simp
    also have "\<dots> = max (max x (Max (set xs))) (max y (Max (set ys)))"
      by (simp add: max.assoc max.left_commute)
    finally show ?thesis using False ys by simp
  qed
qed

lemma reducemin_vtype_min:
  assumes "length a = length b" "a \<noteq> []"
  shows "reducemin (vtype_min a b) = min (Min (set a)) (reducemin b)"
proof -
  have b: "b \<noteq> []" using assms by auto
  have m: "vtype_min a b \<noteq> []" using assms b by (cases a; cases b) (simp_all add: vtype_min_def)
  have "reducemin (vtype_min a b) = Min (set (map2 min a b))"
    using reducemin_Min[OF m] by (simp only: vtype_min_def)
  also have "\<dots> = min (Min (set a)) (Min (set b))" using assms by (rule Min_map2_min)
  finally show ?thesis by (simp only: reducemin_Min[OF b])
qed

lemma reducemax_vtype_max:
  assumes "length a = length b" "a \<noteq> []"
  shows "reducemax (vtype_max a b) = max (Max (set a)) (reducemax b)"
proof -
  have b: "b \<noteq> []" using assms by auto
  have m: "vtype_max a b \<noteq> []" using assms b by (cases a; cases b) (simp_all add: vtype_max_def)
  have "reducemax (vtype_max a b) = Max (set (map2 max a b))"
    using reducemax_Max[OF m] by (simp only: vtype_max_def)
  also have "\<dots> = max (Max (set a)) (Max (set b))" using assms by (rule Max_map2_max)
  finally show ?thesis by (simp only: reducemax_Max[OF b])
qed

text \<open>One call of \<open>partition_vec\<close> on a register held outside the array keeps the invariants.\<close>

lemma partition_vec_inv:
  fixes p :: "'a::linorder"
  assumes lanes: "0 < lanes" and len: "length cv = lanes"
    and inv: "part_inv p arr0 L R arr l_store left right r_store (mset cv + held)"
    and ext: "ext_inv s0 b0 L R arr l_store r_store (reducemin minv) (reducemax maxv)"
    and regs: "length minv = lanes" "length maxv = lanes"
    and room: "l_store + length (filter (\<lambda>x. x < p) cv) \<le> left"
              "right + length (filter (\<lambda>x. p \<le> x) cv) \<le> r_store"
    and bound: "length arr0 < 2 ^ 64"
    and unp: "unp = sz_sub (r_store - l_store) lanes"
  shows "\<exists>arr' l' r' minv' maxv'.
           partition_vec lanes arr l_store unp cv (set1 lanes p) minv maxv
             = Some (arr', l', sz_sub (r' - l') lanes, minv', maxv')
           \<and> l' = l_store + length (filter (\<lambda>x. x < p) cv)
           \<and> r' = r_store - length (filter (\<lambda>x. p \<le> x) cv)
           \<and> part_inv p arr0 L R arr' l' left right r' held
           \<and> ext_inv s0 b0 L R arr' l' r' (reducemin minv') (reducemax maxv')
           \<and> length minv' = lanes \<and> length maxv' = lanes"
proof -
  let ?ls = "filter (\<lambda>x. x < p) cv" and ?gs = "filter (\<lambda>x. p \<le> x) cv"
  let ?arr' = "stored (stored arr l_store ?ls) (r_store - length ?gs) ?gs"
  let ?l' = "l_store + length ?ls" and ?r' = "r_store - length ?gs"
  have sum: "length ?ls + length ?gs = lanes" using length_filter_lt_ge[of p cv] len by simp
  have order: "left \<le> right" "r_store \<le> length arr" "length arr = length arr0"
    using inv by (simp_all add: part_inv_def)
  have r1: "l_store + lanes \<le> r_store" using room order sum by linarith
  have u: "unp = r_store - l_store - lanes"
    unfolding unp using r1 order bound by (intro sz_sub_exact) simp_all
  have d: "?r' - ?l' = unp" unfolding u using r1 sum room by simp
  have cvne: "cv \<noteq> []" using len lanes by auto
  have pv: "partition_vec lanes arr l_store unp cv (set1 lanes p) minv maxv =
           Some (?arr', ?l', sz_sub unp lanes, vtype_min cv minv, vtype_max cv maxv)"
    using len r1 order(2) bound u order(3) by (intro partition_vec_Some) simp_all
  have i': "part_inv p arr0 L R ?arr' ?l' left right ?r' held"
    using inv room by (rule part_inv_step)
  have e': "ext_inv s0 b0 L R ?arr' ?l' ?r' (min (Min (set cv)) (reducemin minv))
             (max (Max (set cv)) (reducemax maxv))"
    using inv ext room cvne by (rule ext_inv_step)
  have rm: "reducemin (vtype_min cv minv) = min (Min (set cv)) (reducemin minv)"
    using len regs cvne by (intro reducemin_vtype_min) simp_all
  have rx: "reducemax (vtype_max cv maxv) = max (Max (set cv)) (reducemax maxv)"
    using len regs cvne by (intro reducemax_vtype_max) simp_all
  have ln: "length (vtype_min cv minv) = lanes" "length (vtype_max cv maxv) = lanes"
    using len regs by (simp_all add: length_vtype_min length_vtype_max)
  have pv': "partition_vec lanes arr l_store unp cv (set1 lanes p) minv maxv =
           Some (?arr', ?l', sz_sub (?r' - ?l') lanes, vtype_min cv minv, vtype_max cv maxv)"
    using pv d by simp
  have e'': "ext_inv s0 b0 L R ?arr' ?l' ?r' (reducemin (vtype_min cv minv))
             (reducemax (vtype_max cv maxv))"
    using e' rm rx by simp
  show ?thesis
    apply (rule exI[of _ ?arr'])
    apply (rule exI[of _ ?l'])
    apply (rule exI[of _ ?r'])
    apply (rule exI[of _ "vtype_min cv minv"])
    apply (rule exI[of _ "vtype_max cv maxv"])
    using pv' i' e'' ln by simp
qed

lemma part_invD:
  assumes "part_inv p arr0 L R arr l_store left right r_store held"
  shows "length arr = length arr0" and "take L arr = take L arr0" and "drop R arr = drop R arr0"
    and "L \<le> l_store" and "l_store \<le> left" and "left \<le> right" and "right \<le> r_store"
    and "r_store \<le> R" and "R \<le> length arr0"
    and "\<forall>x\<in>set (seg arr L l_store). x < p" and "\<forall>x\<in>set (seg arr r_store R). p \<le> x"
    and "mset (seg arr L l_store) + mset (seg arr left right) + mset (seg arr r_store R) + held
           = mset (seg arr0 L R)"
  using assms by (simp_all add: part_inv_def)

lemma part_invI:
  assumes "length arr = length arr0" and "take L arr = take L arr0" and "drop R arr = drop R arr0"
    and "L \<le> l_store" and "l_store \<le> left" and "left \<le> right" and "right \<le> r_store"
    and "r_store \<le> R" and "R \<le> length arr0"
    and "\<forall>x\<in>set (seg arr L l_store). x < p" and "\<forall>x\<in>set (seg arr r_store R). p \<le> x"
    and "mset (seg arr L l_store) + mset (seg arr left right) + mset (seg arr r_store R) + held
           = mset (seg arr0 L R)"
  shows "part_inv p arr0 L R arr l_store left right r_store held"
  using assms by (simp add: part_inv_def)

lemma part_inv_load_left:
  assumes inv: "part_inv p arr0 L R arr l_store left right r_store held"
    and gap: "left + lanes \<le> right"
  shows "part_inv p arr0 L R arr l_store (left + lanes) right r_store
           (mset (seg arr left (left + lanes)) + held)"
proof -
  note d = part_invD[OF inv]
  have "seg arr left right = seg arr left (left + lanes) @ seg arr (left + lanes) right"
    using gap by (intro seg_split) simp_all
  then have "mset (seg arr L l_store) + mset (seg arr (left + lanes) right)
               + mset (seg arr r_store R) + (mset (seg arr left (left + lanes)) + held)
             = mset (seg arr L l_store) + mset (seg arr left right) + mset (seg arr r_store R) + held"
    by simp
  then have ms: "mset (seg arr L l_store) + mset (seg arr (left + lanes) right)
               + mset (seg arr r_store R) + (mset (seg arr left (left + lanes)) + held)
             = mset (seg arr0 L R)"
    using d(12) by simp
  have o: "l_store \<le> left + lanes" using d(5) by simp
  show ?thesis
    by (rule part_invI[OF d(1,2,3,4) o gap d(7,8,9,10,11) ms])
qed

lemma part_inv_load_right:
  assumes inv: "part_inv p arr0 L R arr l_store left right r_store held"
    and gap: "left + lanes \<le> right"
  shows "part_inv p arr0 L R arr l_store left (right - lanes) r_store
           (mset (seg arr (right - lanes) right) + held)"
proof -
  note d = part_invD[OF inv]
  have "seg arr left right = seg arr left (right - lanes) @ seg arr (right - lanes) right"
    using gap by (intro seg_split) simp_all
  then have "mset (seg arr L l_store) + mset (seg arr left (right - lanes))
               + mset (seg arr r_store R) + (mset (seg arr (right - lanes) right) + held)
             = mset (seg arr L l_store) + mset (seg arr left right) + mset (seg arr r_store R) + held"
    by simp
  then have ms: "mset (seg arr L l_store) + mset (seg arr left (right - lanes))
               + mset (seg arr r_store R) + (mset (seg arr (right - lanes) right) + held)
             = mset (seg arr0 L R)"
    using d(12) by simp
  have o: "left \<le> right - lanes" "right - lanes \<le> r_store" using d(7) gap by simp_all
  show ?thesis
    by (rule part_invI[OF d(1,2,3,4,5) o d(8,9,10,11) ms])
qed

lemma part_inv_empty_window:
  assumes "part_inv p arr0 L R arr l_store m m r_store held" "l_store \<le> m'" "m' \<le> r_store"
  shows "part_inv p arr0 L R arr l_store m' m' r_store held"
  using assms by (simp add: part_inv_def seg_empty)

lemma length_filter_lt_le: "length (filter (\<lambda>x. x < (p::'a::linorder)) cv) \<le> length cv"
  by simp

text \<open>The main loop of \<^verbatim>\<open>partition_avx512\<close> returns and keeps the invariants.\<close>

lemma partition_loop_correct:
  fixes p :: "'a::linorder"
  assumes lanes: "0 < lanes" and bound: "length arr0 < 2 ^ 64"
    and n: "right = left + n * lanes"
    and inv: "part_inv p arr0 L R arr l_store left right r_store held"
    and ext: "ext_inv s0 b0 L R arr l_store r_store (reducemin minv) (reducemax maxv)"
    and regs: "length minv = lanes" "length maxv = lanes"
    and free: "(left - l_store) + (r_store - right) = 2 * lanes"
    and unp: "unp = sz_sub (r_store - l_store) lanes"
  shows "\<exists>arr' l' r' minv' maxv'.
           partition_loop lanes (set1 lanes p) arr left right l_store unp minv maxv
             = Some (arr', l', sz_sub (r' - l') lanes, minv', maxv')
           \<and> r' = l' + 2 * lanes
           \<and> part_inv p arr0 L R arr' l' l' l' r' held
           \<and> ext_inv s0 b0 L R arr' l' r' (reducemin minv') (reducemax maxv')
           \<and> length minv' = lanes \<and> length maxv' = lanes"
  using n inv ext regs free unp
proof (induction n arbitrary: arr left right l_store r_store minv maxv unp)
  case 0
  then have eq: "right = left" by simp
  have ord: "l_store \<le> left" "left \<le> r_store" "r_store \<le> length arr0"
    using "0.prems"(2) eq by (simp_all add: part_inv_def)
  have z: "sz_sub right left = 0" unfolding eq using ord bound by (simp add: sz_sub_exact)
  have r: "r_store = l_store + 2 * lanes" using "0.prems"(6) eq ord by simp
  have i0: "part_inv p arr0 L R arr l_store left left r_store held"
    using "0.prems"(2) unfolding eq .
  have lr: "l_store \<le> r_store" using ord by simp
  have i: "part_inv p arr0 L R arr l_store l_store l_store r_store held"
    by (rule part_inv_empty_window[OF i0 order_refl lr])
  have "partition_loop lanes (set1 lanes p) arr left right l_store unp minv maxv
          = Some (arr, l_store, sz_sub (r_store - l_store) lanes, minv, maxv)"
    by (subst partition_loop.simps) (simp add: z "0.prems"(7))
  then show ?case using r i "0.prems"(3,4,5) by blast
next
  case (Suc n)
  let ?a = "left - l_store" and ?b = "r_store - right"
  have ord: "L \<le> l_store" "l_store \<le> left" "left \<le> right" "right \<le> r_store" "r_store \<le> R"
      "R \<le> length arr0" "length arr = length arr0"
    using Suc.prems(2) by (simp_all add: part_inv_def)
  have gap: "left + lanes \<le> right" using Suc.prems(1) by simp
  have nz: "sz_sub right left \<noteq> 0"
    using gap lanes ord bound by (simp add: sz_sub_exact)
  have u: "unp = r_store - l_store - lanes" "l_store + unp + lanes = r_store"
    using Suc.prems(7) gap ord bound Suc.prems(6) by (simp_all add: sz_sub_exact)
  have c1: "sz_sub (l_store + unp + lanes) right = ?b"
    unfolding u(2) using ord bound by (intro sz_sub_exact) simp_all
  have c2: "sz_sub left l_store = ?a" using ord bound by (intro sz_sub_exact) simp_all
  show ?case
  proof (cases "?b < ?a")
    case True
    let ?right' = "right - lanes"
    let ?cv = "seg arr ?right' right"
    have rl: "sz_sub right lanes = ?right'" using gap ord bound by (intro sz_sub_exact) simp_all
    have ld: "loadu lanes arr ?right' = Some ?cv"
      using loadu_Some[of ?right' lanes arr] gap ord by simp
    have len: "length ?cv = lanes" using gap ord by (simp add: length_seg)
    have i1: "part_inv p arr0 L R arr l_store left ?right' r_store (mset ?cv + held)"
      using Suc.prems(2) gap by (rule part_inv_load_right)
    have al: "lanes < ?a" using True Suc.prems(6) by simp
    have room: "l_store + length (filter (\<lambda>x. x < p) ?cv) \<le> left"
       "?right' + length (filter (\<lambda>x. p \<le> x) ?cv) \<le> r_store"
      using al len length_filter_le[of "\<lambda>x. x < p" ?cv] length_filter_le[of "\<lambda>x. p \<le> x" ?cv]
        ord gap by simp_all
    from partition_vec_inv[OF lanes len i1 Suc.prems(3,4,5) room bound Suc.prems(7)]
    obtain arr' l' r' minv' maxv' where pv:
      "partition_vec lanes arr l_store unp ?cv (set1 lanes p) minv maxv
             = Some (arr', l', sz_sub (r' - l') lanes, minv', maxv')"
      "l' = l_store + length (filter (\<lambda>x. x < p) ?cv)"
      "r' = r_store - length (filter (\<lambda>x. p \<le> x) ?cv)"
      "part_inv p arr0 L R arr' l' left ?right' r' held"
      "ext_inv s0 b0 L R arr' l' r' (reducemin minv') (reducemax maxv')"
      "length minv' = lanes" "length maxv' = lanes"
      by blast
    have sum: "length (filter (\<lambda>x. x < p) ?cv) + length (filter (\<lambda>x. p \<le> x) ?cv) = lanes"
      using length_filter_lt_ge[of p ?cv] len by simp
    have n': "?right' = left + n * lanes" using Suc.prems(1) by simp
    have free': "(left - l') + (r' - ?right') = 2 * lanes"
      unfolding pv(2,3) using Suc.prems(6) sum room ord gap by linarith
    from Suc.IH[OF n' pv(4,5,6,7) free' refl]
    obtain arr'' l'' r'' minv'' maxv'' where ih:
      "partition_loop lanes (set1 lanes p) arr' left ?right' l' (sz_sub (r' - l') lanes) minv' maxv'
             = Some (arr'', l'', sz_sub (r'' - l'') lanes, minv'', maxv'')"
      "r'' = l'' + 2 * lanes"
      "part_inv p arr0 L R arr'' l'' l'' l'' r'' held"
      "ext_inv s0 b0 L R arr'' l'' r'' (reducemin minv'') (reducemax maxv'')"
      "length minv'' = lanes" "length maxv'' = lanes"
      by blast
    have "partition_loop lanes (set1 lanes p) arr left right l_store unp minv maxv
            = Some (arr'', l'', sz_sub (r'' - l'') lanes, minv'', maxv'')"
      by (subst partition_loop.simps) (simp add: nz c1 c2 True rl ld pv(1) ih(1))
    then show ?thesis using ih(2-) by blast
  next
    case False
    let ?left' = "left + lanes"
    let ?cv = "seg arr left ?left'"
    have ld: "loadu lanes arr left = Some ?cv"
      using loadu_Some[of left lanes arr] gap ord by simp
    have len: "length ?cv = lanes" using gap ord by (simp add: length_seg)
    have i1: "part_inv p arr0 L R arr l_store ?left' right r_store (mset ?cv + held)"
      using Suc.prems(2) gap by (rule part_inv_load_left)
    have bl: "lanes \<le> ?b" using False Suc.prems(6) by simp
    have room: "l_store + length (filter (\<lambda>x. x < p) ?cv) \<le> ?left'"
       "right + length (filter (\<lambda>x. p \<le> x) ?cv) \<le> r_store"
      using bl len length_filter_le[of "\<lambda>x. x < p" ?cv] length_filter_le[of "\<lambda>x. p \<le> x" ?cv]
        ord gap by simp_all
    from partition_vec_inv[OF lanes len i1 Suc.prems(3,4,5) room bound Suc.prems(7)]
    obtain arr' l' r' minv' maxv' where pv:
      "partition_vec lanes arr l_store unp ?cv (set1 lanes p) minv maxv
             = Some (arr', l', sz_sub (r' - l') lanes, minv', maxv')"
      "l' = l_store + length (filter (\<lambda>x. x < p) ?cv)"
      "r' = r_store - length (filter (\<lambda>x. p \<le> x) ?cv)"
      "part_inv p arr0 L R arr' l' ?left' right r' held"
      "ext_inv s0 b0 L R arr' l' r' (reducemin minv') (reducemax maxv')"
      "length minv' = lanes" "length maxv' = lanes"
      by blast
    have sum: "length (filter (\<lambda>x. x < p) ?cv) + length (filter (\<lambda>x. p \<le> x) ?cv) = lanes"
      using length_filter_lt_ge[of p ?cv] len by simp
    have n': "right = ?left' + n * lanes" using Suc.prems(1) by simp
    have free': "(?left' - l') + (r' - right) = 2 * lanes"
      unfolding pv(2,3) using Suc.prems(6) sum room ord gap by linarith
    from Suc.IH[OF n' pv(4,5,6,7) free' refl]
    obtain arr'' l'' r'' minv'' maxv'' where ih:
      "partition_loop lanes (set1 lanes p) arr' ?left' right l' (sz_sub (r' - l') lanes) minv' maxv'
             = Some (arr'', l'', sz_sub (r'' - l'') lanes, minv'', maxv'')"
      "r'' = l'' + 2 * lanes"
      "part_inv p arr0 L R arr'' l'' l'' l'' r'' held"
      "ext_inv s0 b0 L R arr'' l'' r'' (reducemin minv'') (reducemax maxv'')"
      "length minv'' = lanes" "length maxv'' = lanes"
      by blast
    have "partition_loop lanes (set1 lanes p) arr left right l_store unp minv maxv
            = Some (arr'', l'', sz_sub (r'' - l'') lanes, minv'', maxv'')"
      by (subst partition_loop.simps) (simp add: nz c1 c2 False ld pv(1) ih(1))
    then show ?thesis using ih(2-) by blast
  qed
qed

lemma seg_single: "a < length xs \<Longrightarrow> seg xs a (Suc a) = [xs ! a]"
  by (simp add: seg_def take_Suc_conv_app_nth[of 0 "drop a xs", simplified] hd_drop_conv_nth
      take_Suc hd_conv_nth)

lemma seg_swap_before: "b \<le> i \<Longrightarrow> b \<le> j \<Longrightarrow> seg (swap_cells arr i j) a b = seg arr a b"
proof -
  assume h: "b \<le> i" "b \<le> j"
  have "seg (swap_cells arr i j) a b = drop a (take b (swap_cells arr i j))"
    by (simp add: seg_def drop_take)
  also have "take b (swap_cells arr i j) = take b arr" using h by (simp add: swap_cells_def)
  finally show ?thesis by (simp add: seg_def drop_take)
qed

lemma seg_swap_after: "i < a \<Longrightarrow> j < a \<Longrightarrow> seg (swap_cells arr i j) a b = seg arr a b"
  by (simp add: seg_def swap_cells_def)

lemma mset_seg_swap:
  assumes "a \<le> i" "i < b" "a \<le> j" "j < b" "b \<le> length arr"
  shows "mset (seg (swap_cells arr i j) a b) = mset (seg arr a b)"
proof -
  have t: "mset (take b (swap_cells arr i j)) = mset (take b arr)"
    using assms by (intro mset_take_swap_cells) simp_all
  have s: "take b xs = take a xs @ seg xs a b" for xs :: "'a list"
    using assms(1,2) seg_split[of 0 a b xs] by (simp add: seg_take)
  have "take a (swap_cells arr i j) = take a arr" using assms by (simp add: swap_cells_def)
  then show ?thesis using t s[of "swap_cells arr i j"] s[of arr] by simp
qed

lemma std_min_min: "std_min a b = min a b"
  by (auto simp: std_min_def comparison_func_def min_def)

lemma std_max_max: "std_max a b = max a b"
  by (auto simp: std_max_def comparison_func_def max_def)

lemma ext_inv_add:
  assumes "ext_inv s0 b0 L R arr l r s b"
    and "set (seg arr' L l') \<union> set (seg arr' r' R) = insert x (set (seg arr L l) \<union> set (seg arr r R))"
  shows "ext_inv s0 b0 L R arr' l' r' (min s x) (max b x)"
proof -
  let ?W = "set (seg arr L l) \<union> set (seg arr r R)"
  have f: "finite (insert s0 ?W)" "finite (insert b0 ?W)" by simp_all
  have "Min (insert s0 (insert x ?W)) = Min (insert x (insert s0 ?W))" by (simp add: insert_commute)
  also have "\<dots> = min x (Min (insert s0 ?W))" using f by (intro Min_insert) simp_all
  finally have a: "Min (insert s0 (insert x ?W)) = min s x"
    using assms(1) by (simp add: ext_inv_def min.commute)
  have "Max (insert b0 (insert x ?W)) = Max (insert x (insert b0 ?W))" by (simp add: insert_commute)
  also have "\<dots> = max x (Max (insert b0 ?W))" using f by (intro Max_insert) simp_all
  finally have b: "Max (insert b0 (insert x ?W)) = max b x"
    using assms(1) by (simp add: ext_inv_def max.commute)
  show ?thesis unfolding ext_inv_def assms(2) a b by simp
qed

text \<open>One step of the scalar loop on a cell \<open>\<ge>\<close> pivot: it is swapped to the right end.\<close>

lemma align_step_ge:
  fixes p :: "'a::linorder"
  assumes inv: "part_inv p arr0 L R arr left left right right {#}"
    and lt: "left < right" and x: "p \<le> arr ! left"
  shows "part_inv p arr0 L R (swap_cells arr left (right - 1)) left left (right - 1) (right - 1) {#}"
    and "set (seg (swap_cells arr left (right - 1)) L left)
           \<union> set (seg (swap_cells arr left (right - 1)) (right - 1) R)
         = insert (arr ! left) (set (seg arr L left) \<union> set (seg arr right R))"
proof -
  note d = part_invD[OF inv]
  let ?j = "right - 1"
  let ?a = "swap_cells arr left ?j"
  have rl: "right \<le> length arr" using d by simp
  have jl: "?j < length arr" "left \<le> ?j" "?j < right" "Suc ?j = right" using lt rl by simp_all
  have ll: "left < length arr" using lt rl by simp
  have s1: "seg ?a L left = seg arr L left" using jl by (intro seg_swap_before) simp_all
  have s2: "seg ?a right R = seg arr right R" using jl lt by (intro seg_swap_after) simp_all
  have la: "length ?a = length arr" by (simp add: length_swap_cells)
  have "seg ?a ?j (Suc ?j) = [?a ! ?j]" using jl la by (intro seg_single) simp
  then have s3: "seg ?a ?j right = [arr ! left]"
    using jl ll by (simp add: nth_swap_cells)
  have s4: "seg ?a ?j R = [arr ! left] @ seg arr right R"
    using seg_split[of ?j right R ?a] jl d(8) s3 s2 by simp
  have s5: "seg ?a left right = seg ?a left ?j @ [arr ! left]"
    using seg_split[of left ?j right ?a] jl s3 by simp
  have "mset (seg ?a left right) = mset (seg arr left right)"
    using jl lt rl by (intro mset_seg_swap) simp_all
  then have m: "mset (seg ?a left ?j) + {#arr ! left#} = mset (seg arr left right)"
    using s5 by simp
  have "mset (seg ?a L left) + mset (seg ?a left ?j) + mset (seg ?a ?j R) + {#}
          = mset (seg arr L left) + (mset (seg ?a left ?j) + {#arr ! left#}) + mset (seg arr right R) + {#}"
    unfolding s1 s4 by simp
  also have "\<dots> = mset (seg arr0 L R)" unfolding m using d(12) by simp
  finally have ms: "mset (seg ?a L left) + mset (seg ?a left ?j) + mset (seg ?a ?j R) + {#}
          = mset (seg arr0 L R)" .
  have f1: "length ?a = length arr0" using la d(1) by simp
  have f2: "take L ?a = take L arr0" using d(2,4) jl by (simp add: swap_cells_def)
  have f3: "drop R ?a = drop R arr0" using d(3,8) jl lt by (simp add: swap_cells_def)
  have lo: "\<forall>x\<in>set (seg ?a L left). x < p" unfolding s1 by (rule d(10))
  have hi: "\<forall>x\<in>set (seg ?a ?j R). p \<le> x" unfolding s4 using d(11) x by simp
  have o: "?j \<le> R" using d(8) by simp
  show "part_inv p arr0 L R ?a left left ?j ?j {#}"
    by (rule part_invI[OF f1 f2 f3 d(4) order_refl jl(2) order_refl o d(9) lo hi ms])
  show "set (seg ?a L left) \<union> set (seg ?a ?j R)
         = insert (arr ! left) (set (seg arr L left) \<union> set (seg arr right R))"
    unfolding s1 s4 by auto
qed

text \<open>One step of the scalar loop on a cell below the pivot: it stays on the left.\<close>

lemma align_step_lt:
  fixes p :: "'a::linorder"
  assumes inv: "part_inv p arr0 L R arr left left right right {#}"
    and lt: "left < right" and x: "arr ! left < p"
  shows "part_inv p arr0 L R arr (left + 1) (left + 1) right right {#}"
    and "set (seg arr L (left + 1)) \<union> set (seg arr right R)
         = insert (arr ! left) (set (seg arr L left) \<union> set (seg arr right R))"
proof -
  note d = part_invD[OF inv]
  have ll: "left < length arr" using lt d by simp
  have s3: "seg arr left (left + 1) = [arr ! left]" using seg_single[OF ll] by simp
  have s1: "seg arr L (left + 1) = seg arr L left @ [arr ! left]"
    using seg_split[of L left "left + 1" arr] d(4) s3 by simp
  have s2: "seg arr left right = [arr ! left] @ seg arr (left + 1) right"
    using seg_split[of left "left + 1" right arr] lt s3 by simp
  have "mset (seg arr L (left + 1)) + mset (seg arr (left + 1) right) + mset (seg arr right R) + {#}
         = mset (seg arr L left) + mset (seg arr left right) + mset (seg arr right R) + {#}"
    unfolding s1 s2 by simp
  then have ms: "mset (seg arr L (left + 1)) + mset (seg arr (left + 1) right)
                   + mset (seg arr right R) + {#} = mset (seg arr0 L R)"
    using d(12) by simp
  have lo: "\<forall>x\<in>set (seg arr L (left + 1)). x < p" unfolding s1 using d(10) x by simp
  have o: "L \<le> left + 1" "left + 1 \<le> right" using d(4) lt by simp_all
  show "part_inv p arr0 L R arr (left + 1) (left + 1) right right {#}"
    by (rule part_invI[OF d(1,2,3) o(1) order_refl o(2) order_refl d(8,9) lo d(11) ms])
  show "set (seg arr L (left + 1)) \<union> set (seg arr right R)
         = insert (arr ! left) (set (seg arr L left) \<union> set (seg arr right R))"
    unfolding s1 by auto
qed

lemma partition_align_correct:
  fixes p :: "'a::linorder"
  assumes bound: "length arr0 < 2 ^ 64"
    and inv: "part_inv p arr0 L R arr left left right right {#}"
    and ext: "ext_inv s0 b0 L R arr left right s b"
    and i: "i \<le> right - left"
  shows "\<exists>arr' left' right' s' b'.
           partition_align i p arr left right s b = Some (arr', left', right', s', b')
           \<and> right' - left' = right - left - i
           \<and> part_inv p arr0 L R arr' left' left' right' right' {#}
           \<and> ext_inv s0 b0 L R arr' left' right' s' b'"
  using inv ext i
proof (induction i arbitrary: arr left right s b)
  case 0
  then show ?case by simp
next
  case (Suc i)
  note d = part_invD[OF Suc.prems(1)]
  have lt: "left < right" using Suc.prems(3) by simp
  have ll: "left < length arr" "right \<le> length arr" "right < 2 ^ 64"
    using lt d bound by simp_all
  let ?x = "arr ! left"
  show ?case
  proof (cases "?x < p")
    case True
    note st = align_step_lt[OF Suc.prems(1) lt True]
    have e: "ext_inv s0 b0 L R arr (left + 1) right (min s ?x) (max b ?x)"
      using Suc.prems(2) st(2) by (rule ext_inv_add)
    have i': "i \<le> right - (left + 1)" using Suc.prems(3) by simp
    from Suc.IH[OF st(1) e i']
    obtain arr' left' right' s' b' where ih:
      "partition_align i p arr (left + 1) right (min s ?x) (max b ?x)
         = Some (arr', left', right', s', b')"
      "right' - left' = right - (left + 1) - i"
      "part_inv p arr0 L R arr' left' left' right' right' {#}"
      "ext_inv s0 b0 L R arr' left' right' s' b'"
      by blast
    have "partition_align (Suc i) p arr left right s b = Some (arr', left', right', s', b')"
      using ll True ih(1) by (simp add: comparison_func_def std_min_min std_max_max)
    then show ?thesis using ih(2,3,4) by auto
  next
    case False
    then have x: "p \<le> ?x" by simp
    note st = align_step_ge[OF Suc.prems(1) lt x]
    have r1: "sz_sub right (Suc 0) = right - Suc 0" using lt ll by (intro sz_sub_exact) simp_all
    have e: "ext_inv s0 b0 L R (swap_cells arr left (right - 1)) left (right - 1)
               (min s ?x) (max b ?x)"
      using Suc.prems(2) st(2) by (rule ext_inv_add)
    have i': "i \<le> right - 1 - left" using Suc.prems(3) by simp
    from Suc.IH[OF st(1) e i']
    obtain arr' left' right' s' b' where ih:
      "partition_align i p (swap_cells arr left (right - 1)) left (right - 1) (min s ?x) (max b ?x)
         = Some (arr', left', right', s', b')"
      "right' - left' = right - 1 - left - i"
      "part_inv p arr0 L R arr' left' left' right' right' {#}"
      "ext_inv s0 b0 L R arr' left' right' s' b'"
      by blast
    have "partition_align (Suc i) p arr left right s b = Some (arr', left', right', s', b')"
      using ll False lt ih(1) by (simp add: comparison_func_def std_min_min std_max_max r1 Let_def)
    then show ?thesis using ih(2,3,4) by auto
  qed
qed

text \<open>A register partitioned into a window that holds no unread cell.\<close>

lemma partition_vec_flush:
  fixes p :: "'a::linorder"
  assumes lanes: "0 < lanes" and len: "length cv = lanes"
    and inv: "part_inv p arr0 L R arr l_store m m r_store (mset cv + held)"
    and ext: "ext_inv s0 b0 L R arr l_store r_store (reducemin minv) (reducemax maxv)"
    and regs: "length minv = lanes" "length maxv = lanes"
    and room: "l_store + lanes \<le> r_store"
    and bound: "length arr0 < 2 ^ 64"
    and unp: "unp = sz_sub (r_store - l_store) lanes"
  shows "\<exists>arr' l' r' minv' maxv'.
           partition_vec lanes arr l_store unp cv (set1 lanes p) minv maxv
             = Some (arr', l', sz_sub (r' - l') lanes, minv', maxv')
           \<and> r' - l' = r_store - l_store - lanes \<and> l' \<le> r'
           \<and> part_inv p arr0 L R arr' l' l' l' r' held
           \<and> ext_inv s0 b0 L R arr' l' r' (reducemin minv') (reducemax maxv')
           \<and> length minv' = lanes \<and> length maxv' = lanes"
proof -
  let ?nl = "length (filter (\<lambda>x. x < p) cv)" and ?ng = "length (filter (\<lambda>x. p \<le> x) cv)"
  let ?m = "l_store + ?nl"
  have sum: "?nl + ?ng = lanes" using length_filter_lt_ge[of p cv] len by simp
  have o: "l_store \<le> ?m" "?m \<le> r_store" using room sum by simp_all
  have i1: "part_inv p arr0 L R arr l_store ?m ?m r_store (mset cv + held)"
    by (rule part_inv_empty_window[OF inv o])
  have rm: "l_store + ?nl \<le> ?m" "?m + ?ng \<le> r_store" using room sum by simp_all
  from partition_vec_inv[OF lanes len i1 ext regs rm bound unp]
  obtain arr' l' r' minv' maxv' where pv:
    "partition_vec lanes arr l_store unp cv (set1 lanes p) minv maxv
       = Some (arr', l', sz_sub (r' - l') lanes, minv', maxv')"
    "l' = l_store + ?nl" "r' = r_store - ?ng"
    "part_inv p arr0 L R arr' l' ?m ?m r' held"
    "ext_inv s0 b0 L R arr' l' r' (reducemin minv') (reducemax maxv')"
    "length minv' = lanes" "length maxv' = lanes"
    by blast
  have a: "r' - l' = r_store - l_store - lanes" "l' \<le> r'"
    unfolding pv(2,3) using room sum by simp_all
  have i2: "part_inv p arr0 L R arr' l' l' l' r' held"
    by (rule part_inv_empty_window[OF pv(4) order_refl a(2)])
  show ?thesis using pv(1,5,6,7) a i2 by blast
qed

lemma part_inv_done:
  assumes "part_inv p arr0 L R arr k k k k {#}"
  shows "partitioned_at p arr0 L R arr k"
proof -
  note d = part_invD[OF assms]
  have "seg arr L R = seg arr L k @ seg arr k R" using d by (intro seg_split) simp_all
  then have "mset (seg arr L R) = mset (seg arr0 L R)" using d(12) by (simp add: seg_empty)
  then show ?thesis using d by (simp add: partitioned_at_def)
qed

lemma ext_inv_done:
  assumes "part_inv p arr0 L R arr k k k k {#}" "ext_inv s0 b0 L R arr k k s b"
  shows "s = Min (insert s0 (set (seg arr0 L R)))" "b = Max (insert b0 (set (seg arr0 L R)))"
proof -
  note d = part_invD[OF assms(1)]
  have "mset (seg arr L k) + mset (seg arr k R) = mset (seg arr0 L R)"
    using d(12) by (simp add: seg_empty)
  then have "set_mset (mset (seg arr L k) + mset (seg arr k R)) = set_mset (mset (seg arr0 L R))"
    by simp
  then have "set (seg arr L k) \<union> set (seg arr k R) = set (seg arr0 L R)" by simp
  then show "s = Min (insert s0 (set (seg arr0 L R)))" "b = Max (insert b0 (set (seg arr0 L R)))"
    using assms(2) by (simp_all add: ext_inv_def)
qed

lemma part_inv_init:
  assumes "L \<le> R" "R \<le> length arr"
  shows "part_inv p arr L R arr L L R R {#}"
  using assms by (simp add: part_inv_def seg_empty)

lemma ext_inv_init: "ext_inv s b L R arr L R s b"
  by (simp add: ext_inv_def seg_empty)

lemma partition_avx512_correct:
  fixes p :: "'a::linorder"
  assumes lanes: "0 < lanes" and lr: "left \<le> right" and rl: "right \<le> length arr"
    and bound: "length arr < 2 ^ 64"
  shows "\<exists>arr' k s' b'.
           partition_avx512 lanes arr left right p s b = Some (arr', k, s', b')
           \<and> partitioned_at p arr left right arr' k
           \<and> ((right - left) div lanes \<noteq> 1 \<longrightarrow>
                 s' = Min (insert s (set (seg arr left right)))
                 \<and> b' = Max (insert b (set (seg arr left right))))"
proof -
  define n where "n = (right - left) div lanes"
  let ?i = "(right - left) mod lanes"
  have sz: "sz_sub right left = right - left" using lr rl bound by (intro sz_sub_exact) simp_all
  have i0: "part_inv p arr left right arr left left right right {#}"
    using lr rl by (rule part_inv_init)
  have e0: "ext_inv s b left right arr left right s b" by (rule ext_inv_init)
  have "\<exists>arr' left' right' s' b'.
           partition_align ?i p arr left right s b = Some (arr', left', right', s', b')
           \<and> right' - left' = right - left - ?i
           \<and> part_inv p arr left right arr' left' left' right' right' {#}
           \<and> ext_inv s b left right arr' left' right' s' b'"
    using bound i0 e0 by (rule partition_align_correct) simp
  then obtain arr1 l1 r1 s1 b1 where al:
    "partition_align ?i p arr left right s b = Some (arr1, l1, r1, s1, b1)"
    "r1 - l1 = right - left - ?i"
    "part_inv p arr left right arr1 l1 l1 r1 r1 {#}"
    "ext_inv s b left right arr1 l1 r1 s1 b1"
    by blast
  note d1 = part_invD[OF al(3)]
  have "right - left - ?i = n * lanes" unfolding n_def by (simp add: minus_mod_eq_mult_div)
  then have r1: "r1 = l1 + n * lanes" using al(2) d1(6) by simp
  have b1: "r1 \<le> length arr" "r1 < 2 ^ 64" "length arr1 = length arr"
    using d1 bound by simp_all
  have sz1: "sz_sub r1 l1 = n * lanes" using r1 b1 sz_sub_exact[of l1 r1] by simp
  let ?pv = "set1 lanes p" and ?mn = "set1 lanes s1" and ?mx = "set1 lanes b1"
  have regs: "length ?mn = lanes" "length ?mx = lanes" by (simp_all add: length_set1)
  have e1: "ext_inv s b left right arr1 l1 r1 (reducemin ?mn) (reducemax ?mx)"
    using al(4) lanes by (simp add: reducemin_set1 reducemax_set1)
  consider (zero) "n = 0" | (one) "n = 1" | (more) "2 \<le> n" by linarith
  then show ?thesis
  proof cases
    case zero
    then have eq: "l1 = r1" using r1 by simp
    have i: "part_inv p arr left right arr1 l1 l1 l1 l1 {#}" using al(3) eq by simp
    have pa: "partition_avx512 lanes arr left right p s b = Some (arr1, l1, s1, b1)"
      by (simp add: partition_avx512_def sz al(1) eq)
    have x: "s1 = Min (insert s (set (seg arr left right)))"
            "b1 = Max (insert b (set (seg arr left right)))"
      using ext_inv_done[OF i] al(4) eq by simp_all
    show ?thesis using pa part_inv_done[OF i] x by blast
  next
    case one
    then have r1': "r1 = l1 + lanes" using r1 by simp
    have ne: "l1 \<noteq> r1" using r1' lanes by simp
    let ?cv = "seg arr1 l1 (l1 + lanes)"
    have ld: "loadu lanes arr1 l1 = Some ?cv"
      using loadu_Some[of l1 lanes arr1] r1' b1 by simp
    have len: "length ?cv = lanes" using r1' b1 by (simp add: length_seg)
    have g: "l1 + lanes \<le> r1" using r1' by simp
    have i1: "part_inv p arr left right arr1 l1 r1 r1 r1 (mset ?cv + {#})"
      using part_inv_load_left[OF al(3) g] r1' by simp
    have u: "sz_sub (sz_sub r1 l1) lanes = sz_sub (r1 - l1) lanes" using sz1 one r1' by simp
    from partition_vec_flush[OF lanes len i1 e1 regs g _ u] bound
    obtain arr' l' r' minv' maxv' where pv:
      "partition_vec lanes arr1 l1 (sz_sub (sz_sub r1 l1) lanes) ?cv ?pv ?mn ?mx
         = Some (arr', l', sz_sub (r' - l') lanes, minv', maxv')"
      "r' - l' = r1 - l1 - lanes" "l' \<le> r'"
      "part_inv p arr left right arr' l' l' l' r' {#}"
      by blast
    have eq: "r' = l'" using pv(2,3) r1' by simp
    have i: "part_inv p arr left right arr' l' l' l' l' {#}" using pv(4) eq by simp
    have szl: "sz_sub r1 l1 = lanes" using sz1 one by simp
    have pa: "partition_avx512 lanes arr left right p s b = Some (arr', l', s1, b1)"
      using pv(1) by (simp add: partition_avx512_def sz al(1) ne szl ld Let_def)
    have "(right - left) div lanes = 1" using one n_def by simp
    then show ?thesis using pa part_inv_done[OF i] by blast
  next
    case more
    have g2: "l1 + lanes + lanes \<le> r1"
    proof -
      have "2 * lanes \<le> n * lanes" using more by (rule mult_le_mono1)
      then show ?thesis unfolding r1 by linarith
    qed
    have ne: "l1 \<noteq> r1" using g2 lanes by simp
    have nl: "sz_sub r1 l1 \<noteq> lanes" using sz1 more lanes by simp
    let ?vl = "seg arr1 l1 (l1 + lanes)" and ?vr = "seg arr1 (r1 - lanes) r1"
    have ld1: "loadu lanes arr1 l1 = Some ?vl"
      using loadu_Some[of l1 lanes arr1] g2 b1 by simp
    have rl1: "sz_sub r1 lanes = r1 - lanes" using g2 b1 by (intro sz_sub_exact) simp_all
    have ld2: "loadu lanes arr1 (r1 - lanes) = Some ?vr"
      using loadu_Some[of "r1 - lanes" lanes arr1] g2 b1 by simp
    have len: "length ?vl = lanes" "length ?vr = lanes" using g2 b1 by (simp_all add: length_seg)
    have g: "l1 + lanes \<le> r1" using g2 by simp
    have i1: "part_inv p arr left right arr1 l1 (l1 + lanes) r1 r1 (mset ?vl + {#})"
      by (rule part_inv_load_left[OF al(3) g])
    have i2: "part_inv p arr left right arr1 l1 (l1 + lanes) (r1 - lanes) r1
                (mset ?vr + (mset ?vl + {#}))"
      by (rule part_inv_load_right[OF i1 g2])
    have n': "r1 - lanes = l1 + lanes + (n - 2) * lanes"
    proof -
      have "n * lanes = (n - 2) * lanes + 2 * lanes" using more by (simp add: algebra_simps)
      then show ?thesis using r1 by simp
    qed
    have free: "(l1 + lanes - l1) + (r1 - (r1 - lanes)) = 2 * lanes" using g2 by simp
    have u: "sz_sub (sz_sub r1 l1) lanes = sz_sub (r1 - l1) lanes" using sz1 r1 by simp
    from partition_loop_correct[OF lanes bound n' i2 e1 regs free u]
    obtain arr2 l2 r2 minv2 maxv2 where lp:
      "partition_loop lanes ?pv arr1 (l1 + lanes) (r1 - lanes) l1 (sz_sub (sz_sub r1 l1) lanes) ?mn ?mx
         = Some (arr2, l2, sz_sub (r2 - l2) lanes, minv2, maxv2)"
      "r2 = l2 + 2 * lanes"
      "part_inv p arr left right arr2 l2 l2 l2 r2 (mset ?vr + (mset ?vl + {#}))"
      "ext_inv s b left right arr2 l2 r2 (reducemin minv2) (reducemax maxv2)"
      "length minv2 = lanes" "length maxv2 = lanes"
      by blast
    have i3: "part_inv p arr left right arr2 l2 l2 l2 r2 (mset ?vl + (mset ?vr + {#}))"
      using lp(3) by (simp add: ac_simps)
    have rm2: "l2 + lanes \<le> r2" using lp(2) by simp
    from partition_vec_flush[OF lanes len(1) i3 lp(4,5,6) rm2 bound refl]
    obtain arr3 l3 r3 minv3 maxv3 where f1:
      "partition_vec lanes arr2 l2 (sz_sub (r2 - l2) lanes) ?vl ?pv minv2 maxv2
         = Some (arr3, l3, sz_sub (r3 - l3) lanes, minv3, maxv3)"
      "r3 - l3 = r2 - l2 - lanes" "l3 \<le> r3"
      "part_inv p arr left right arr3 l3 l3 l3 r3 (mset ?vr + {#})"
      "ext_inv s b left right arr3 l3 r3 (reducemin minv3) (reducemax maxv3)"
      "length minv3 = lanes" "length maxv3 = lanes"
      by blast
    have rm3: "l3 + lanes \<le> r3" using f1(2,3) lp(2) by simp
    from partition_vec_flush[OF lanes len(2) f1(4,5,6,7) rm3 bound refl]
    obtain arr4 l4 r4 minv4 maxv4 where f2:
      "partition_vec lanes arr3 l3 (sz_sub (r3 - l3) lanes) ?vr ?pv minv3 maxv3
         = Some (arr4, l4, sz_sub (r4 - l4) lanes, minv4, maxv4)"
      "r4 - l4 = r3 - l3 - lanes" "l4 \<le> r4"
      "part_inv p arr left right arr4 l4 l4 l4 r4 {#}"
      "ext_inv s b left right arr4 l4 r4 (reducemin minv4) (reducemax maxv4)"
      by blast
    have eq: "r4 = l4" using f2(2,3) f1(2) lp(2) by simp
    have i: "part_inv p arr left right arr4 l4 l4 l4 l4 {#}" using f2(4) eq by simp
    have e: "ext_inv s b left right arr4 l4 l4 (reducemin minv4) (reducemax maxv4)"
      using f2(5) eq by simp
    have pa: "partition_avx512 lanes arr left right p s b
                = Some (arr4, l4, reducemin minv4, reducemax maxv4)"
      using lp(1) f1(1) f2(1)
      by (simp add: partition_avx512_def sz al(1) ne nl ld1 rl1 ld2 Let_def)
    show ?thesis using pa part_inv_done[OF i] ext_inv_done[OF i e] by blast
  qed
qed

text \<open>
  Claim C3. For every array \<open>A\<close>, pivot \<open>P\<close> and indices \<open>left < right \<le> |A|\<close>,
  \<open>partition_avx512\<close> returns an index \<open>k\<close> with \<open>left \<le> k \<le> right\<close>; afterwards every cell
  of \<open>A[left..k)\<close> is \<open>< P\<close> and every cell of \<open>A[k..right)\<close> is \<open>\<ge> P\<close> (cells equal to the
  pivot are on the right), \<open>A[left..right)\<close> holds a permutation of its entry contents, and
  no position outside \<open>[left, right)\<close> is written. (The array fits the address space, and a
  register has at least one lane.)
\<close>

theorem partition_avx512_contract:
  fixes P :: "'a::linorder"
  assumes "0 < lanes" and "left < right" and "right \<le> length A" and "length A < 2 ^ 64"
  shows "\<exists>A' k s' b'.
           partition_avx512 lanes A left right P s b = Some (A', k, s', b')
           \<and> left \<le> k \<and> k \<le> right
           \<and> (\<forall>x\<in>set (seg A' left k). x < P)
           \<and> (\<forall>x\<in>set (seg A' k right). P \<le> x)
           \<and> mset (seg A' left right) = mset (seg A left right)
           \<and> length A' = length A \<and> take left A' = take left A \<and> drop right A' = drop right A"
proof -
  have lr: "left \<le> right" using assms(2) by simp
  from partition_avx512_correct[OF assms(1) lr assms(3,4), of P s b]
  obtain A' k s' b' where r: "partition_avx512 lanes A left right P s b = Some (A', k, s', b')"
    "partitioned_at P A left right A' k"
    by blast
  show ?thesis using r unfolding partitioned_at_def by blast
qed

theorem partition_avx512_contract_witness:
  "0 < (2::nat) \<and> (0::nat) < 9 \<and> 9 \<le> length [3, 1, 4, 1, 5, 9, 2, 6, 7 :: int]
   \<and> (\<exists>A' k s' b'.
         partition_avx512 2 [3, 1, 4, 1, 5, 9, 2, 6, 7 :: int] 0 9 4 100 (- 100) = Some (A', k, s', b')
         \<and> k \<le> 9
         \<and> mset (seg A' 0 9) = mset (seg [3, 1, 4, 1, 5, 9, 2, 6, 7] 0 9)
         \<and> length A' = 9)"
  using partition_avx512_contract [of 2 0 9 "[3, 1, 4, 1, 5, 9, 2, 6, 7 :: int]" 4 100 "- 100"]
  by auto

text \<open>
  Claim C5 fails on a range of exactly one register (here eight lanes): the branch
  returns without writing \<^verbatim>\<open>*smallest\<close> and \<^verbatim>\<open>*biggest\<close>, which keep their seeds
  \<open>type_max\<close> and \<open>type_min\<close> (of a 64-bit signed integer) although the range holds
  \<open>1\<close> and \<open>9\<close>.
\<close>

theorem partition_avx512_one_register_extremes:
  "partition_avx512 8 [3, 1, 4, 1, 5, 9, 2, 6 :: int] 0 8 4 9223372036854775807 (- 9223372036854775808)
     = Some ([3, 1, 1, 2, 4, 5, 9, 6], 4, 9223372036854775807, - 9223372036854775808)"
  by code_simp


section \<open>The unrolled partition kernel: correctness\<close>

lemma load_regs_chunks:
  assumes "base + m * lanes \<le> length arr"
  shows "\<exists>vs. load_regs lanes arr (map (\<lambda>ii. base + ii * lanes) [0..<m]) = Some vs
           \<and> length vs = m \<and> (\<forall>v\<in>set vs. length v = lanes)
           \<and> concat vs = seg arr base (base + m * lanes)"
  using assms
proof (induction m arbitrary: base)
  case 0
  then show ?case by (simp add: seg_empty)
next
  case (Suc m)
  have b: "base + lanes \<le> length arr" "(base + lanes) + m * lanes \<le> length arr"
    using Suc.prems by simp_all
  from Suc.IH[OF b(2)] obtain vs where ih:
    "load_regs lanes arr (map (\<lambda>ii. (base + lanes) + ii * lanes) [0..<m]) = Some vs"
    "length vs = m" "\<forall>v\<in>set vs. length v = lanes"
    "concat vs = seg arr (base + lanes) (base + lanes + m * lanes)"
    by blast
  have idx: "map (\<lambda>ii. base + ii * lanes) [0..<Suc m]
               = base # map (\<lambda>ii. (base + lanes) + ii * lanes) [0..<m]"
  proof -
    have "[0..<Suc m] = 0 # [Suc 0..<Suc m]" by (rule upt_conv_Cons) simp
    also have "[Suc 0..<Suc m] = map Suc [0..<m]" by (rule map_Suc_upt[symmetric])
    finally have "[0..<Suc m] = 0 # map Suc [0..<m]" .
    then show ?thesis by (simp add: comp_def add.assoc add.commute del: upt_Suc)
  qed
  let ?v = "seg arr base (base + lanes)"
  have ld: "loadu lanes arr base = Some ?v" using b(1) by (rule loadu_Some)
  have r: "load_regs lanes arr (map (\<lambda>ii. base + ii * lanes) [0..<Suc m]) = Some (?v # vs)"
    unfolding idx using ld ih(1) by simp
  have len: "length ?v = lanes" using b(1) by (simp add: length_seg)
  have "seg arr base (base + Suc m * lanes) = ?v @ seg arr (base + lanes) (base + Suc m * lanes)"
    by (intro seg_split) simp_all
  then have c: "concat (?v # vs) = seg arr base (base + Suc m * lanes)"
    using ih(4) by (simp add: add.assoc add.commute)
  show ?case using r len ih(2,3) c by (intro exI[of _ "?v # vs"]) simp
qed

text \<open>A list of registers partitioned one after the other keeps the invariants.\<close>

lemma partition_vecs_inv:
  fixes p :: "'a::linorder"
  assumes lanes: "0 < lanes" and bound: "length arr0 < 2 ^ 64"
    and len: "\<forall>v\<in>set vs. length v = lanes"
    and inv: "part_inv p arr0 L R arr l_store left right r_store (mset (concat vs) + held)"
    and ext: "ext_inv s0 b0 L R arr l_store r_store (reducemin minv) (reducemax maxv)"
    and regs: "length minv = lanes" "length maxv = lanes"
    and room: "l_store + length (filter (\<lambda>x. x < p) (concat vs)) \<le> left"
              "right + length (filter (\<lambda>x. p \<le> x) (concat vs)) \<le> r_store"
    and unp: "unp = sz_sub (r_store - l_store) lanes"
  shows "\<exists>arr' l' r' minv' maxv'.
           partition_vecs lanes arr l_store unp vs (set1 lanes p) minv maxv
             = Some (arr', l', sz_sub (r' - l') lanes, minv', maxv')
           \<and> l' = l_store + length (filter (\<lambda>x. x < p) (concat vs))
           \<and> r' = r_store - length (filter (\<lambda>x. p \<le> x) (concat vs))
           \<and> part_inv p arr0 L R arr' l' left right r' held
           \<and> ext_inv s0 b0 L R arr' l' r' (reducemin minv') (reducemax maxv')
           \<and> length minv' = lanes \<and> length maxv' = lanes"
  using len inv ext regs room unp
proof (induction vs arbitrary: arr l_store r_store minv maxv unp)
  case Nil
  then show ?case by simp
next
  case (Cons v vs)
  let ?nl = "length (filter (\<lambda>x. x < p) v)" and ?ng = "length (filter (\<lambda>x. p \<le> x) v)"
  let ?tl = "length (filter (\<lambda>x. x < p) (concat vs))"
  let ?tg = "length (filter (\<lambda>x. p \<le> x) (concat vs))"
  have lv: "length v = lanes" and lvs: "\<forall>v\<in>set vs. length v = lanes" using Cons.prems(1) by simp_all
  have i1: "part_inv p arr0 L R arr l_store left right r_store (mset v + (mset (concat vs) + held))"
    using Cons.prems(2) by (simp add: ac_simps)
  have rm: "l_store + ?nl \<le> left" "right + ?ng \<le> r_store"
    using Cons.prems(6,7) by simp_all
  from partition_vec_inv[OF lanes lv i1 Cons.prems(3,4,5) rm bound Cons.prems(8)]
  obtain arr' l' r' minv' maxv' where pv:
    "partition_vec lanes arr l_store unp v (set1 lanes p) minv maxv
       = Some (arr', l', sz_sub (r' - l') lanes, minv', maxv')"
    "l' = l_store + ?nl" "r' = r_store - ?ng"
    "part_inv p arr0 L R arr' l' left right r' (mset (concat vs) + held)"
    "ext_inv s0 b0 L R arr' l' r' (reducemin minv') (reducemax maxv')"
    "length minv' = lanes" "length maxv' = lanes"
    by blast
  have rm': "l' + ?tl \<le> left" "right + ?tg \<le> r'"
    unfolding pv(2,3) using Cons.prems(6,7) by simp_all
  from Cons.IH[OF lvs pv(4,5,6,7) rm' refl]
  obtain arr'' l'' r'' minv'' maxv'' where ih:
    "partition_vecs lanes arr' l' (sz_sub (r' - l') lanes) vs (set1 lanes p) minv' maxv'
       = Some (arr'', l'', sz_sub (r'' - l'') lanes, minv'', maxv'')"
    "l'' = l' + ?tl" "r'' = r' - ?tg"
    "part_inv p arr0 L R arr'' l'' left right r'' held"
    "ext_inv s0 b0 L R arr'' l'' r'' (reducemin minv'') (reducemax maxv'')"
    "length minv'' = lanes" "length maxv'' = lanes"
    by blast
  have r: "partition_vecs lanes arr l_store unp (v # vs) (set1 lanes p) minv maxv
       = Some (arr'', l'', sz_sub (r'' - l'') lanes, minv'', maxv'')"
    using pv(1) ih(1) by simp
  have e: "l'' = l_store + length (filter (\<lambda>x. x < p) (concat (v # vs)))"
     "r'' = r_store - length (filter (\<lambda>x. p \<le> x) (concat (v # vs)))"
    unfolding ih(2,3) pv(2,3) by simp_all
  show ?case using r e ih(4,5,6,7) by blast
qed

lemma length_concat_regs: "\<forall>v\<in>set vs. length v = lanes \<Longrightarrow> length (concat vs) = length vs * lanes"
  by (induction vs) simp_all

text \<open>Registers partitioned into a window that holds no unread cell.\<close>

lemma partition_vecs_flush:
  fixes p :: "'a::linorder"
  assumes lanes: "0 < lanes" and bound: "length arr0 < 2 ^ 64"
    and len: "\<forall>v\<in>set vs. length v = lanes"
    and inv: "part_inv p arr0 L R arr l_store m m r_store (mset (concat vs) + held)"
    and ext: "ext_inv s0 b0 L R arr l_store r_store (reducemin minv) (reducemax maxv)"
    and regs: "length minv = lanes" "length maxv = lanes"
    and room: "l_store + length vs * lanes \<le> r_store"
    and unp: "unp = sz_sub (r_store - l_store) lanes"
  shows "\<exists>arr' l' r' minv' maxv'.
           partition_vecs lanes arr l_store unp vs (set1 lanes p) minv maxv
             = Some (arr', l', sz_sub (r' - l') lanes, minv', maxv')
           \<and> r' - l' = r_store - l_store - length vs * lanes \<and> l' \<le> r'
           \<and> part_inv p arr0 L R arr' l' l' l' r' held
           \<and> ext_inv s0 b0 L R arr' l' r' (reducemin minv') (reducemax maxv')
           \<and> length minv' = lanes \<and> length maxv' = lanes"
proof -
  let ?nl = "length (filter (\<lambda>x. x < p) (concat vs))"
  let ?ng = "length (filter (\<lambda>x. p \<le> x) (concat vs))"
  let ?m = "l_store + ?nl"
  have sum: "?nl + ?ng = length vs * lanes"
    using length_filter_lt_ge[of p "concat vs"] length_concat_regs[OF len] by simp
  have o: "l_store \<le> ?m" "?m \<le> r_store" using room sum by simp_all
  have i1: "part_inv p arr0 L R arr l_store ?m ?m r_store (mset (concat vs) + held)"
    by (rule part_inv_empty_window[OF inv o])
  have rm: "l_store + ?nl \<le> ?m" "?m + ?ng \<le> r_store" using room sum by simp_all
  from partition_vecs_inv[OF lanes bound len i1 ext regs rm unp]
  obtain arr' l' r' minv' maxv' where pv:
    "partition_vecs lanes arr l_store unp vs (set1 lanes p) minv maxv
       = Some (arr', l', sz_sub (r' - l') lanes, minv', maxv')"
    "l' = l_store + ?nl" "r' = r_store - ?ng"
    "part_inv p arr0 L R arr' l' ?m ?m r' held"
    "ext_inv s0 b0 L R arr' l' r' (reducemin minv') (reducemax maxv')"
    "length minv' = lanes" "length maxv' = lanes"
    by blast
  have a: "r' - l' = r_store - l_store - length vs * lanes" "l' \<le> r'"
    unfolding pv(2,3) using room sum by simp_all
  have i2: "part_inv p arr0 L R arr' l' l' l' r' held"
    by (rule part_inv_empty_window[OF pv(4) order_refl a(2)])
  show ?thesis using pv(1,5,6,7) a i2 by blast
qed

lemma stored_Nil: "stored arr i [] = arr"
  by (simp add: stored_def)

lemma ext_buf_step:
  assumes ext: "ext_buf s0 b0 L R arr l r buf s b"
    and W: "set (seg arr' L l') \<union> set (seg arr' r' R) \<union> set buf'
              = set cv \<union> (set (seg arr L l) \<union> set (seg arr r R) \<union> set buf)"
    and ne: "cv \<noteq> []"
  shows "ext_buf s0 b0 L R arr' l' r' buf' (min (Min (set cv)) s) (max (Max (set cv)) b)"
proof -
  let ?W = "set (seg arr L l) \<union> set (seg arr r R) \<union> set buf"
  have fin: "finite (set cv)" "finite (insert s0 ?W)" "finite (insert b0 ?W)" by simp_all
  have nes: "set cv \<noteq> {}" using ne by simp
  have "Min (insert s0 (set cv \<union> ?W)) = Min (set cv \<union> insert s0 ?W)" by simp
  also have "\<dots> = min (Min (set cv)) (Min (insert s0 ?W))"
    using fin nes by (intro Min_Un) simp_all
  finally have a: "Min (insert s0 (set cv \<union> ?W)) = min (Min (set cv)) s"
    using ext by (simp add: ext_buf_def)
  have "Max (insert b0 (set cv \<union> ?W)) = Max (set cv \<union> insert b0 ?W)" by simp
  also have "\<dots> = max (Max (set cv)) (Max (insert b0 ?W))"
    using fin nes by (intro Max_Un) simp_all
  finally have b: "Max (insert b0 (set cv \<union> ?W)) = max (Max (set cv)) b"
    using ext by (simp add: ext_buf_def)
  show ?thesis unfolding ext_buf_def W a b by simp
qed

lemma compress_lt:
  "length cv = lanes \<Longrightarrow>
     selected (knot_opmask (ge cv (set1 lanes p))) cv = filter (\<lambda>x. x < (p::'a::linorder)) cv"
  using knot_ge_set1[of cv p] selected_map[of "\<lambda>x. x < p" cv] by simp

lemma compress_ge:
  "length cv = lanes \<Longrightarrow>
     selected (ge cv (set1 lanes p)) cv = filter (\<lambda>x. (p::'a::linorder) \<le> x) cv"
  using ge_set1[of cv p] selected_map[of "\<lambda>x. p \<le> x" cv] by simp

lemma popcnt_ge:
  "length cv = lanes \<Longrightarrow>
     popcnt (ge cv (set1 lanes p)) = length (filter (\<lambda>x. (p::'a::linorder) \<le> x) cv)"
  using ge_set1[of cv p] popcnt_map[of "\<lambda>x. p \<le> x" cv] by simp

lemma unrolled_preamble_correct:
  fixes p :: "'a::linorder"
  assumes lanes: "0 < lanes" and bound: "length arr0 < 2 ^ 64"
    and inv: "part_inv p arr0 L R arr ls (left + i * lanes) r r (mset buf)"
    and bge: "\<forall>x\<in>set buf. p \<le> x"
    and pos: "left \<le> ls" "ls + length buf = left + i * lanes"
    and ext: "ext_buf s0 b0 L R arr ls r buf (reducemin minv) (reducemax maxv)"
    and regs: "length minv = lanes" "length maxv = lanes"
    and k: "left + (i + k) * lanes \<le> r"
    and cap: "(i + k) * lanes \<le> cap"
  shows "\<exists>arr' buf' ls' minv' maxv'.
           unrolled_preamble k lanes cap (set1 lanes p) left i arr buf ls minv maxv
             = Some (arr', buf', ls', minv', maxv')
           \<and> part_inv p arr0 L R arr' ls' (left + (i + k) * lanes) r r (mset buf')
           \<and> (\<forall>x\<in>set buf'. p \<le> x)
           \<and> left \<le> ls' \<and> ls' + length buf' = left + (i + k) * lanes
           \<and> ext_buf s0 b0 L R arr' ls' r buf' (reducemin minv') (reducemax maxv')
           \<and> length minv' = lanes \<and> length maxv' = lanes"
  using inv bge pos ext regs k cap
proof (induction k arbitrary: i arr buf ls minv maxv)
  case 0
  then show ?case by simp
next
  case (Suc k)
  note d = part_invD[OF Suc.prems(1)]
  define a where "a = left + i * lanes"
  define a' where "a' = left + (i + 1) * lanes"
  let ?a = a and ?a' = a'
  define cv where "cv = seg arr ?a ?a'"
  let ?cv = cv
  note d = d[folded a_def]
  let ?ls = "filter (\<lambda>x. x < p) ?cv" and ?gs = "filter (\<lambda>x. p \<le> x) ?cv"
  have a'r: "?a' \<le> r"
  proof -
    have "(i + 1) * lanes \<le> (i + Suc k) * lanes" by (intro mult_le_mono1) simp
    then show ?thesis unfolding a'_def using Suc.prems(8) by linarith
  qed
  have al: "?a + lanes = ?a'" "?a \<le> ?a'" by (simp_all add: a_def a'_def)
  have rl: "r \<le> length arr" using d by simp
  have ld: "loadu lanes arr (left + i * lanes) = Some ?cv"
    unfolding cv_def using loadu_Some[of ?a lanes arr] a'r rl al by (simp add: a_def)
  have len: "length ?cv = lanes" unfolding cv_def using a'r rl al by (simp add: length_seg)
  have cvne: "?cv \<noteq> []" using len lanes by auto
  have sum: "length ?ls + length ?gs = lanes" using length_filter_lt_ge[of p ?cv] len by simp
  have lsa: "ls + length buf = ?a" using Suc.prems(4) by (simp add: a_def)
  have order: "L \<le> ls" "ls + length ?ls \<le> ?a'" "?a' \<le> r" "r + length ([]::'a list) \<le> r"
      "r \<le> R" "R \<le> length arr"
    using d a'r lsa al sum by simp_all
  note eff0 = partition_vec_effect[OF order, unfolded stored_Nil]
  have eff: "length (stored arr ls ?ls) = length arr" "take L (stored arr ls ?ls) = take L arr"
    "drop R (stored arr ls ?ls) = drop R arr"
    "seg (stored arr ls ?ls) L (ls + length ?ls) = seg arr L ls @ ?ls"
    "seg (stored arr ls ?ls) ?a' r = seg arr ?a' r"
    "seg (stored arr ls ?ls) r R = seg arr r R"
    using eff0 by simp_all
  let ?arr' = "stored arr ls ?ls"
  have s1: "mask_compressstoreu arr ls (knot_opmask (ge ?cv (set1 lanes p))) ?cv = Some ?arr'"
    unfolding mask_compressstoreu_def compress_lt[OF len] using order rl
    by (intro store_cells_Some) simp
  have bl: "length buf \<le> i * lanes" using Suc.prems(3,4) by simp

  have "(i + 1) * lanes \<le> (i + Suc k) * lanes" by (intro mult_le_mono1) simp
  then have "i * lanes + lanes \<le> cap" using Suc.prems(9) by (simp add: algebra_simps)
  then have capi: "length buf + length ?gs \<le> cap" using bl sum by linarith
  have s2: "buffer_store cap buf (ge ?cv (set1 lanes p)) ?cv = Some (buf @ ?gs)"
    unfolding buffer_store_def compress_ge[OF len] using capi by simp
  have nl: "lanes - popcnt (ge ?cv (set1 lanes p)) = length ?ls"
    unfolding popcnt_ge[OF len] using sum by simp
  have split: "seg arr ?a r = ?cv @ seg arr ?a' r"
    unfolding cv_def using a'r al by (intro seg_split) simp_all
  have m1: "mset ?ls + mset ?gs = mset ?cv" by (rule mset_filter_lt_ge)
  have "mset (seg ?arr' L (ls + length ?ls)) + mset (seg ?arr' ?a' r) + mset (seg ?arr' r R)
          + mset (buf @ ?gs)
        = mset (seg arr L ls) + mset (seg arr ?a' r) + mset (seg arr r R) + mset buf
          + (mset ?ls + mset ?gs)"
    unfolding eff by simp
  also have "\<dots> = mset (seg arr L ls) + (mset ?cv + mset (seg arr ?a' r)) + mset (seg arr r R)
          + mset buf"
    unfolding m1 by simp
  also have "\<dots> = mset (seg arr0 L R)" using d(12) split by simp
  finally have ms: "mset (seg ?arr' L (ls + length ?ls)) + mset (seg ?arr' ?a' r)
          + mset (seg ?arr' r R) + mset (buf @ ?gs) = mset (seg arr0 L R)" .
  have lo: "\<forall>x\<in>set (seg ?arr' L (ls + length ?ls)). x < p"
    unfolding eff using d(10) by auto
  have hi: "\<forall>x\<in>set (seg ?arr' r R). p \<le> x" unfolding eff using d(11) by simp
  have fr: "length ?arr' = length arr0" "take L ?arr' = take L arr0" "drop R ?arr' = drop R arr0"
    using eff(1,2,3) d(1,2,3) by simp_all
  have o': "L \<le> ls + length ?ls" using d(4) by simp
  have i': "part_inv p arr0 L R ?arr' (ls + length ?ls) ?a' r r (mset (buf @ ?gs))"
    by (rule part_invI[OF fr o' order(2) a'r order_refl d(8,9) lo hi ms])
  have bge': "\<forall>x\<in>set (buf @ ?gs). p \<le> x" using Suc.prems(2) by auto
  have pos': "left \<le> ls + length ?ls" "ls + length ?ls + length (buf @ ?gs) = left + (i + 1) * lanes"
    using Suc.prems(3,4) sum by simp_all
  note i' = i'[unfolded a'_def]
  have W: "set (seg ?arr' L (ls + length ?ls)) \<union> set (seg ?arr' r R) \<union> set (buf @ ?gs)
            = set ?cv \<union> (set (seg arr L ls) \<union> set (seg arr r R) \<union> set buf)"
    unfolding eff by auto
  have e': "ext_buf s0 b0 L R ?arr' (ls + length ?ls) r (buf @ ?gs)
              (reducemin (vtype_min ?cv minv)) (reducemax (vtype_max ?cv maxv))"
    using ext_buf_step[OF Suc.prems(5) W cvne] len Suc.prems(6,7) cvne
    by (simp add: reducemin_vtype_min reducemax_vtype_max)
  have rg: "length (vtype_min ?cv minv) = lanes" "length (vtype_max ?cv maxv) = lanes"
    using len Suc.prems(6,7) by (simp_all add: length_vtype_min length_vtype_max)
  have k': "left + (i + 1 + k) * lanes \<le> r" "(i + 1 + k) * lanes \<le> cap"
    using Suc.prems(8,9) by simp_all
  from Suc.IH[OF i' bge' pos' e' rg k']
  obtain arr'' buf'' ls'' minv'' maxv'' where ih:
    "unrolled_preamble k lanes cap (set1 lanes p) left (i + 1) ?arr' (buf @ ?gs) (ls + length ?ls)
        (vtype_min ?cv minv) (vtype_max ?cv maxv) = Some (arr'', buf'', ls'', minv'', maxv'')"
    "part_inv p arr0 L R arr'' ls'' (left + (i + 1 + k) * lanes) r r (mset buf'')"
    "\<forall>x\<in>set buf''. p \<le> x" "left \<le> ls''" "ls'' + length buf'' = left + (i + 1 + k) * lanes"
    "ext_buf s0 b0 L R arr'' ls'' r buf'' (reducemin minv'') (reducemax maxv'')"
    "length minv'' = lanes" "length maxv'' = lanes"
    by blast
  have r: "unrolled_preamble (Suc k) lanes cap (set1 lanes p) left i arr buf ls minv maxv
             = Some (arr'', buf'', ls'', minv'', maxv'')"
    using ld s1 s2 nl ih(1) by (simp add: Let_def)
  have e: "i + 1 + k = i + Suc k" by simp
  show ?case using r ih(2-) unfolding e by blast
qed

text \<open>
  The two copies after the first loop: the last cells of the range move into the gap left
  of the unread cells, and the buffer takes their place.
\<close>

lemma unrolled_copy_back:
  fixes p :: "'a::linorder"
  assumes inv: "part_inv p arr0 L R arr ls m r r (mset buf)"
    and bge: "\<forall>x\<in>set buf. p \<le> x"
    and pos: "ls + length buf = m" "m + length buf \<le> r"
  shows "\<exists>arr2 arr3.
           memcpy_cells arr ls (r - length buf) (length buf) = Some arr2
           \<and> store_cells arr2 (r - length buf) buf = Some arr3
           \<and> part_inv p arr0 L R arr3 ls ls (r - length buf) (r - length buf) {#}
           \<and> set (seg arr3 L ls) \<union> set (seg arr3 (r - length buf) R)
               = set (seg arr L ls) \<union> set (seg arr r R) \<union> set buf"
proof -
  note d = part_invD[OF inv]
  define n where "n = length buf"
  define src where "src = r - n"
  define tail where "tail = seg arr src r"
  have rl: "r \<le> length arr" using d by simp
  have sr: "src + n = r" "m \<le> src" "src \<le> r" using pos by (simp_all add: src_def n_def)
  have tl: "length tail = n" unfolding tail_def using rl sr by (simp add: length_seg)
  have "r - src = n" using sr by simp
  then have td: "take n (drop src arr) = tail" by (simp add: tail_def seg_def)
  let ?a2 = "stored arr ls tail"
  let ?a3 = "stored ?a2 (r - length buf) buf"
  have st: "store_cells arr ls tail = Some ?a2"
    using tl pos rl sr by (intro store_cells_Some) (simp add: n_def)
  have mc: "memcpy_cells arr ls src n = Some ?a2"
  proof (cases "n = 0")
    case True
    then have "tail = []" using tl by simp
    then show ?thesis using True by (simp add: memcpy_cells_def stored_Nil)
  next
    case False
    have "src + n \<le> length arr" "ls + n \<le> length arr" "ls + n \<le> src"
      using sr rl pos by (simp_all add: n_def)
    then show ?thesis using False st by (simp add: memcpy_cells_def td)
  qed
  have order: "L \<le> ls" "ls + length tail \<le> m" "m \<le> src" "src + length buf \<le> r" "r \<le> R"
      "R \<le> length arr"
    using d tl pos sr by (simp_all add: n_def)
  note eff = partition_vec_effect[OF order]
  have rs: "r - length buf = src" by (simp add: src_def n_def)
  have l2: "length ?a2 = length arr" using tl pos rl sr by (intro length_stored) (simp add: n_def)
  have s3: "store_cells ?a2 src buf = Some (stored ?a2 src buf)"
    using l2 sr rl by (intro store_cells_Some) (simp add: n_def)
  let ?b = "stored ?a2 src buf"
  have e: "length ?b = length arr" "take L ?b = take L arr" "drop R ?b = drop R arr"
      "seg ?b L (ls + length tail) = seg arr L ls @ tail"
      "seg ?b m src = seg arr m src"
      "seg ?b src R = buf @ seg arr r R"
    using eff unfolding rs by simp_all
  have lm: "ls + length tail = m" using tl pos by (simp add: n_def)
  have sp: "seg ?b L m = seg ?b L ls @ seg ?b ls m" using d(4) pos by (intro seg_split) simp_all
  have ll: "length (seg ?b L ls) = length (seg arr L ls)"
    using e(1) d rl pos sr by (simp add: length_seg)
  have parts: "seg ?b L ls = seg arr L ls" "seg ?b ls m = tail"
    using e(4) sp ll unfolding lm by simp_all
  have w: "seg ?b ls src = tail @ seg arr m src"
    using seg_split[of ls m src ?b] pos sr parts(2) e(5) by simp
  have ar: "seg arr m r = seg arr m src @ tail" unfolding tail_def using sr by (intro seg_split) simp_all
  have "mset (seg ?b L ls) + mset (seg ?b ls src) + mset (seg ?b src R) + {#}
          = mset (seg arr L ls) + (mset (seg arr m src) + mset tail) + mset (seg arr r R) + mset buf"
    unfolding parts w e(6) by simp
  also have "\<dots> = mset (seg arr0 L R)" using d(12) ar by simp
  finally have ms: "mset (seg ?b L ls) + mset (seg ?b ls src) + mset (seg ?b src R) + {#}
          = mset (seg arr0 L R)" .
  have lo: "\<forall>x\<in>set (seg ?b L ls). x < p" unfolding parts by (rule d(10))
  have hi: "\<forall>x\<in>set (seg ?b src R). p \<le> x" unfolding e(6) using d(11) bge by auto
  have fr: "length ?b = length arr0" "take L ?b = take L arr0" "drop R ?b = drop R arr0"
    using e(1,2,3) d(1,2,3) by simp_all
  have o: "ls \<le> src" "src \<le> R" using pos sr d by simp_all
  have i3: "part_inv p arr0 L R ?b ls ls src src {#}"
    by (rule part_invI[OF fr d(4) order_refl o(1) order_refl o(2) d(9) lo hi ms])
  have W: "set (seg ?b L ls) \<union> set (seg ?b src R)
             = set (seg arr L ls) \<union> set (seg arr r R) \<union> set buf"
    unfolding parts e(6) by auto
  have "\<exists>arr2 arr3.
           memcpy_cells arr ls src n = Some arr2
           \<and> store_cells arr2 src buf = Some arr3
           \<and> part_inv p arr0 L R arr3 ls ls src src {#}
           \<and> set (seg arr3 L ls) \<union> set (seg arr3 src R)
               = set (seg arr L ls) \<union> set (seg arr r R) \<union> set buf"
    using mc s3 i3 W by blast
  then show ?thesis unfolding src_def n_def .
qed

text \<open>The main loop of \<^verbatim>\<open>partition_avx512_unrolled\<close> returns and keeps the invariants.\<close>

lemma partition_loop_unrolled_correct:
  fixes p :: "'a::linorder"
  assumes lanes: "0 < lanes" and U: "0 < U" and bound: "length arr0 < 2 ^ 64"
    and n: "right = left + n * (U * lanes)"
    and inv: "part_inv p arr0 L R arr l_store left right r_store held"
    and ext: "ext_inv s0 b0 L R arr l_store r_store (reducemin minv) (reducemax maxv)"
    and regs: "length minv = lanes" "length maxv = lanes"
    and free: "(left - l_store) + (r_store - right) = 2 * (U * lanes)"
    and unp: "unp = sz_sub (r_store - l_store) lanes"
  shows "\<exists>arr' l' r' minv' maxv'.
           partition_loop_unrolled lanes U (set1 lanes p) arr left right l_store unp minv maxv
             = Some (arr', l', sz_sub (r' - l') lanes, minv', maxv')
           \<and> r' = l' + 2 * (U * lanes)
           \<and> part_inv p arr0 L R arr' l' l' l' r' held
           \<and> ext_inv s0 b0 L R arr' l' r' (reducemin minv') (reducemax maxv')
           \<and> length minv' = lanes \<and> length maxv' = lanes"
  using n inv ext regs free unp
proof (induction n arbitrary: arr left right l_store r_store minv maxv unp)
  case 0
  then have eq: "right = left" by simp
  have ord: "l_store \<le> left" "left \<le> r_store" "r_store \<le> length arr0"
    using "0.prems"(2) eq by (simp_all add: part_inv_def)
  have z: "sz_sub right left = 0" unfolding eq using ord bound by (simp add: sz_sub_exact)
  have r: "r_store = l_store + 2 * (U * lanes)" using "0.prems"(6) eq ord by simp
  have i0: "part_inv p arr0 L R arr l_store left left r_store held"
    using "0.prems"(2) unfolding eq .
  have lr: "l_store \<le> r_store" using ord by simp
  have i: "part_inv p arr0 L R arr l_store l_store l_store r_store held"
    by (rule part_inv_empty_window[OF i0 order_refl lr])
  have "partition_loop_unrolled lanes U (set1 lanes p) arr left right l_store unp minv maxv
          = Some (arr, l_store, sz_sub (r_store - l_store) lanes, minv, maxv)"
    by (subst partition_loop_unrolled.simps) (simp add: z "0.prems"(7))
  then show ?case using r i "0.prems"(3,4,5) by blast
next
  case (Suc n)
  define c where "c = U * lanes"
  have cpos: "lanes \<le> c" "0 < c" using U lanes by (simp_all add: c_def)
  let ?a = "left - l_store" and ?b = "r_store - right"
  have ord: "L \<le> l_store" "l_store \<le> left" "left \<le> right" "right \<le> r_store" "r_store \<le> R"
      "R \<le> length arr0" "length arr = length arr0"
    using Suc.prems(2) by (simp_all add: part_inv_def)
  have gap: "left + c \<le> right" using Suc.prems(1) by (simp add: c_def)
  have fr: "?a + ?b = 2 * c" using Suc.prems(6) by (simp add: c_def)
  have nz: "sz_sub right left \<noteq> 0"
    using gap cpos ord bound by (simp add: sz_sub_exact)
  have u: "unp = r_store - l_store - lanes" "l_store + unp + lanes = r_store"
    using Suc.prems(7) gap ord bound fr cpos by (simp_all add: sz_sub_exact)
  have c1: "sz_sub (l_store + unp + lanes) right = ?b"
    unfolding u(2) using ord bound by (intro sz_sub_exact) simp_all
  have c2: "sz_sub left l_store = ?a" using ord bound by (intro sz_sub_exact) simp_all
  show ?case
  proof (cases "?b < ?a")
    case True
    define right' where "right' = right - c"
    have rl: "sz_sub right (U * lanes) = right'"
      unfolding right'_def c_def[symmetric] using gap ord bound by (intro sz_sub_exact) simp_all
    have rb: "right' + U * lanes \<le> length arr" "right' + c = right"
      using gap ord by (simp_all add: right'_def c_def)
    from load_regs_chunks[OF rb(1)] obtain vs where ld:
      "load_regs lanes arr (map (\<lambda>ii. right' + ii * lanes) [0..<U]) = Some vs"
      "length vs = U" "\<forall>v\<in>set vs. length v = lanes"
      "concat vs = seg arr right' (right' + U * lanes)"
      by blast
    have cc: "concat vs = seg arr (right - c) right" using ld(4) rb(2) by (simp add: c_def right'_def)
    have lc: "length (concat vs) = c" using length_concat_regs[OF ld(3)] ld(2) by (simp add: c_def)
    have i1: "part_inv p arr0 L R arr l_store left right' r_store (mset (concat vs) + held)"
      unfolding cc right'_def using Suc.prems(2) gap by (rule part_inv_load_right)
    have al: "c < ?a" using True fr by simp
    have room: "l_store + length (filter (\<lambda>x. x < p) (concat vs)) \<le> left"
       "right' + length (filter (\<lambda>x. p \<le> x) (concat vs)) \<le> r_store"
      using al lc length_filter_le[of "\<lambda>x. x < p" "concat vs"]
        length_filter_le[of "\<lambda>x. p \<le> x" "concat vs"] ord gap rb(2) by linarith+
    from partition_vecs_inv[OF lanes bound ld(3) i1 Suc.prems(3,4,5) room Suc.prems(7)]
    obtain arr' l' r' minv' maxv' where pv:
      "partition_vecs lanes arr l_store unp vs (set1 lanes p) minv maxv
             = Some (arr', l', sz_sub (r' - l') lanes, minv', maxv')"
      "l' = l_store + length (filter (\<lambda>x. x < p) (concat vs))"
      "r' = r_store - length (filter (\<lambda>x. p \<le> x) (concat vs))"
      "part_inv p arr0 L R arr' l' left right' r' held"
      "ext_inv s0 b0 L R arr' l' r' (reducemin minv') (reducemax maxv')"
      "length minv' = lanes" "length maxv' = lanes"
      by blast
    have sum: "length (filter (\<lambda>x. x < p) (concat vs)) + length (filter (\<lambda>x. p \<le> x) (concat vs)) = c"
      using length_filter_lt_ge[of p "concat vs"] lc by simp
    have n': "right' = left + n * (U * lanes)" using Suc.prems(1) by (simp add: right'_def c_def)
    have free': "(left - l') + (r' - right') = 2 * (U * lanes)"
      unfolding pv(2,3) c_def[symmetric] using fr sum room ord gap rb(2) by linarith
    from Suc.IH[OF n' pv(4,5,6,7) free' refl]
    obtain arr'' l'' r'' minv'' maxv'' where ih:
      "partition_loop_unrolled lanes U (set1 lanes p) arr' left right' l' (sz_sub (r' - l') lanes)
          minv' maxv' = Some (arr'', l'', sz_sub (r'' - l'') lanes, minv'', maxv'')"
      "r'' = l'' + 2 * (U * lanes)"
      "part_inv p arr0 L R arr'' l'' l'' l'' r'' held"
      "ext_inv s0 b0 L R arr'' l'' r'' (reducemin minv'') (reducemax maxv'')"
      "length minv'' = lanes" "length maxv'' = lanes"
      by blast
    have "partition_loop_unrolled lanes U (set1 lanes p) arr left right l_store unp minv maxv
            = Some (arr'', l'', sz_sub (r'' - l'') lanes, minv'', maxv'')"
      by (subst partition_loop_unrolled.simps) (simp add: nz c1 c2 True rl ld(1) pv(1) ih(1))
    then show ?thesis using ih(2-) by blast
  next
    case False
    define left' where "left' = left + c"
    have lb: "left + U * lanes \<le> length arr" using gap ord by (simp add: c_def)
    from load_regs_chunks[OF lb] obtain vs where ld:
      "load_regs lanes arr (map (\<lambda>ii. left + ii * lanes) [0..<U]) = Some vs"
      "length vs = U" "\<forall>v\<in>set vs. length v = lanes"
      "concat vs = seg arr left (left + U * lanes)"
      by blast
    have cc: "concat vs = seg arr left (left + c)" using ld(4) by (simp add: c_def)
    have lc: "length (concat vs) = c" using length_concat_regs[OF ld(3)] ld(2) by (simp add: c_def)
    have i1: "part_inv p arr0 L R arr l_store left' right r_store (mset (concat vs) + held)"
      unfolding cc left'_def using Suc.prems(2) gap by (rule part_inv_load_left)
    have bl: "c \<le> ?b" using False fr by simp
    have room: "l_store + length (filter (\<lambda>x. x < p) (concat vs)) \<le> left'"
       "right + length (filter (\<lambda>x. p \<le> x) (concat vs)) \<le> r_store"
      using bl lc length_filter_le[of "\<lambda>x. x < p" "concat vs"]
        length_filter_le[of "\<lambda>x. p \<le> x" "concat vs"] ord gap unfolding left'_def by linarith+
    from partition_vecs_inv[OF lanes bound ld(3) i1 Suc.prems(3,4,5) room Suc.prems(7)]
    obtain arr' l' r' minv' maxv' where pv:
      "partition_vecs lanes arr l_store unp vs (set1 lanes p) minv maxv
             = Some (arr', l', sz_sub (r' - l') lanes, minv', maxv')"
      "l' = l_store + length (filter (\<lambda>x. x < p) (concat vs))"
      "r' = r_store - length (filter (\<lambda>x. p \<le> x) (concat vs))"
      "part_inv p arr0 L R arr' l' left' right r' held"
      "ext_inv s0 b0 L R arr' l' r' (reducemin minv') (reducemax maxv')"
      "length minv' = lanes" "length maxv' = lanes"
      by blast
    have sum: "length (filter (\<lambda>x. x < p) (concat vs)) + length (filter (\<lambda>x. p \<le> x) (concat vs)) = c"
      using length_filter_lt_ge[of p "concat vs"] lc by simp
    have n': "right = left' + n * (U * lanes)" using Suc.prems(1) by (simp add: left'_def c_def)
    have free': "(left' - l') + (r' - right) = 2 * (U * lanes)"
      unfolding pv(2,3) c_def[symmetric] left'_def using fr sum room ord gap
      unfolding left'_def by linarith
    from Suc.IH[OF n' pv(4,5,6,7) free' refl]
    obtain arr'' l'' r'' minv'' maxv'' where ih:
      "partition_loop_unrolled lanes U (set1 lanes p) arr' left' right l' (sz_sub (r' - l') lanes)
          minv' maxv' = Some (arr'', l'', sz_sub (r'' - l'') lanes, minv'', maxv'')"
      "r'' = l'' + 2 * (U * lanes)"
      "part_inv p arr0 L R arr'' l'' l'' l'' r'' held"
      "ext_inv s0 b0 L R arr'' l'' r'' (reducemin minv'') (reducemax maxv'')"
      "length minv'' = lanes" "length maxv'' = lanes"
      by blast
    have l'e: "left + U * lanes = left'" by (simp add: left'_def c_def)
    have "partition_loop_unrolled lanes U (set1 lanes p) arr left right l_store unp minv maxv
            = Some (arr'', l'', sz_sub (r'' - l'') lanes, minv'', maxv'')"
      by (subst partition_loop_unrolled.simps) (simp add: nz c1 c2 False ld(1) pv(1) l'e ih(1))
    then show ?thesis using ih(2-) by blast
  qed
qed

lemma ext_buf_Nil: "ext_buf s0 b0 L R arr l r [] s b = ext_inv s0 b0 L R arr l r s b"
  by (simp add: ext_buf_def ext_inv_def)

lemma load_regs_left:
  assumes "base + U * lanes \<le> length arr"
  shows "\<exists>vs. load_regs lanes arr (map (\<lambda>ii. base + lanes * ii) [0..<U]) = Some vs
           \<and> length vs = U \<and> (\<forall>v\<in>set vs. length v = lanes)
           \<and> concat vs = seg arr base (base + U * lanes)"
proof -
  have "(\<lambda>ii. base + lanes * ii) = (\<lambda>ii. base + ii * lanes)" by (simp add: mult.commute)
  then show ?thesis using load_regs_chunks[OF assms] by simp
qed

lemma load_regs_right:
  assumes "U * lanes \<le> right" "right \<le> length arr" "right < 2 ^ 64"
  shows "\<exists>vs. load_regs lanes arr (map (\<lambda>ii. sz_sub right (lanes * (U - ii))) [0..<U]) = Some vs
           \<and> length vs = U \<and> (\<forall>v\<in>set vs. length v = lanes)
           \<and> concat vs = seg arr (right - U * lanes) right"
proof -
  define base where "base = right - U * lanes"
  have e: "sz_sub right (lanes * (U - ii)) = base + ii * lanes" if "ii \<in> set [0..<U]" for ii
  proof -
    have iu: "ii < U" using that by simp
    have "lanes * (U - ii) \<le> U * lanes" by (simp add: mult.commute)
    then have le: "lanes * (U - ii) \<le> right" using assms(1) by linarith
    have "sz_sub right (lanes * (U - ii)) = right - lanes * (U - ii)"
      using le assms(3) by (rule sz_sub_exact)
    also have "\<dots> = right - (U * lanes - ii * lanes)"
      by (simp add: diff_mult_distrib2 mult.commute)
    also have "\<dots> = base + ii * lanes"
    proof -
      have "ii * lanes \<le> U * lanes" using iu by (intro mult_le_mono1) simp
      then show ?thesis using assms(1) by (simp add: base_def)
    qed
    finally show ?thesis .
  qed
  have m: "map (\<lambda>ii. sz_sub right (lanes * (U - ii))) [0..<U] = map (\<lambda>ii. base + ii * lanes) [0..<U]"
    by (rule map_cong[OF refl]) (rule e)
  have b: "base + U * lanes \<le> length arr" "base + U * lanes = right"
    using assms by (simp_all add: base_def)
  show ?thesis unfolding m using load_regs_chunks[OF b(1)] unfolding b(2) base_def[symmetric] .
qed

lemma partition_avx512_unrolled_correct:
  fixes p :: "'a::linorder"
  assumes lanes: "0 < lanes" and U: "0 < U" and rl: "right \<le> length arr"
    and bound: "length arr < 2 ^ 64" and big: "left + 2 * U * lanes \<le> right"
  shows "\<exists>arr' k s' b'.
           partition_avx512_unrolled lanes U arr left right p s b = Some (arr', k, s', b')
           \<and> partitioned_at p arr left right arr' k
           \<and> s' = Min (insert s (set (seg arr left right)))
           \<and> b' = Max (insert b (set (seg arr left right)))"
proof -
  define c where "c = U * lanes"
  define V where "V = (right - left) div lanes"
  define v where "v = V mod U"
  define q where "q = V div U"
  have lr: "left \<le> right" using big by simp
  let ?i = "(right - left) mod lanes"
  have sz: "sz_sub right left = right - left" using lr rl bound by (intro sz_sub_exact) simp_all
  have i0: "part_inv p arr left right arr left left right right {#}"
    using lr rl by (rule part_inv_init)
  have e0: "ext_inv s b left right arr left right s b" by (rule ext_inv_init)
  have "\<exists>arr' left' right' s' b'.
           partition_align ?i p arr left right s b = Some (arr', left', right', s', b')
           \<and> right' - left' = right - left - ?i
           \<and> part_inv p arr left right arr' left' left' right' right' {#}
           \<and> ext_inv s b left right arr' left' right' s' b'"
    using bound i0 e0 by (rule partition_align_correct) simp
  then obtain arr1 l1 r1 s1 b1 where al:
    "partition_align ?i p arr left right s b = Some (arr1, l1, r1, s1, b1)"
    "r1 - l1 = right - left - ?i"
    "part_inv p arr left right arr1 l1 l1 r1 r1 {#}"
    "ext_inv s b left right arr1 l1 r1 s1 b1"
    by blast
  note d1 = part_invD[OF al(3)]
  have "right - left - ?i = V * lanes" unfolding V_def by (simp add: minus_mod_eq_mult_div)
  then have r1: "r1 = l1 + V * lanes" using al(2) d1(6) by simp
  have "(2 * U * lanes) div lanes \<le> (right - left) div lanes"
    using big by (intro div_le_mono) simp
  then have V2: "2 * U \<le> V" using lanes by (simp add: V_def)
  have Vq: "V = q * U + v" "v < U" unfolding q_def v_def using U by simp_all
  have q2: "2 \<le> q"
  proof -
    have "(2 * U) div U \<le> V div U" using V2 by (rule div_le_mono)
    then show ?thesis using U by (simp add: q_def)
  qed
  have b1: "r1 \<le> length arr" "r1 < 2 ^ 64" "length arr1 = length arr"
    using d1 bound by simp_all
  have sz1: "sz_sub r1 l1 = V * lanes" using r1 b1 sz_sub_exact[of l1 r1] by simp
  have ne: "l1 \<noteq> r1" using r1 V2 U lanes by simp
  have vv: "(sz_sub r1 l1 div lanes) mod U = v" using sz1 lanes by (simp add: v_def)
  let ?pv = "set1 lanes p" and ?mn = "set1 lanes s1" and ?mx = "set1 lanes b1"
  have regs: "length ?mn = lanes" "length ?mx = lanes" by (simp_all add: length_set1)
  have e1: "ext_buf s b left right arr1 l1 r1 [] (reducemin ?mn) (reducemax ?mx)"
    using al(4) lanes by (simp add: reducemin_set1 reducemax_set1 ext_buf_Nil)
  have i1: "part_inv p arr left right arr1 l1 (l1 + 0 * lanes) r1 r1 (mset [])"
    using al(3) by simp
  have vV: "v * lanes \<le> V * lanes" using Vq by (intro mult_le_mono1) simp
  have k1: "l1 + (0 + v) * lanes \<le> r1" using r1 vV by simp
  have cap: "(0 + v) * lanes \<le> U * lanes" using Vq(2) by (intro mult_le_mono1) simp
  have bn: "\<forall>x\<in>set ([]::'a list). p \<le> x" by simp
  have p0: "l1 \<le> l1" "l1 + length ([]::'a list) = l1 + 0 * lanes" by simp_all
  from unrolled_preamble_correct[OF lanes bound i1 bn p0 e1 regs k1 cap]
  obtain arr2 buf ls minv2 maxv2 where pr:
    "unrolled_preamble v lanes (U * lanes) ?pv l1 0 arr1 [] l1 ?mn ?mx
       = Some (arr2, buf, ls, minv2, maxv2)"
    "part_inv p arr left right arr2 ls (l1 + (0 + v) * lanes) r1 r1 (mset buf)"
    "\<forall>x\<in>set buf. p \<le> x" "l1 \<le> ls" "ls + length buf = l1 + (0 + v) * lanes"
    "ext_buf s b left right arr2 ls r1 buf (reducemin minv2) (reducemax maxv2)"
    "length minv2 = lanes" "length maxv2 = lanes"
    by blast
  define m where "m = l1 + v * lanes"
  define n where "n = length buf"
  have pos: "ls + length buf = m" using pr(5) by (simp add: m_def)
  have nb: "n \<le> v * lanes" using pr(4,5) by (simp add: n_def)
  have qc: "V * lanes = q * c + v * lanes" using Vq(1) by (simp add: c_def algebra_simps)
  have c2: "2 * c \<le> q * c" using q2 by (rule mult_le_mono1)
  have vc: "v * lanes < c" unfolding c_def using Vq(2) lanes by simp
  have mr: "m + q * c = r1" using r1 qc by (simp add: m_def)
  have room: "m + length buf \<le> r1" using mr c2 vc nb unfolding n_def by linarith
  have i2: "part_inv p arr left right arr2 ls m r1 r1 (mset buf)" using pr(2) by (simp add: m_def)
  from unrolled_copy_back[OF i2 pr(3) pos room]
  obtain arr3 arr4 where cb:
    "memcpy_cells arr2 ls (r1 - length buf) (length buf) = Some arr3"
    "store_cells arr3 (r1 - length buf) buf = Some arr4"
    "part_inv p arr left right arr4 ls ls (r1 - length buf) (r1 - length buf) {#}"
    "set (seg arr4 left ls) \<union> set (seg arr4 (r1 - length buf) right)
       = set (seg arr2 left ls) \<union> set (seg arr2 r1 right) \<union> set buf"
    by blast
  define right1 where "right1 = r1 - length buf"
  have szb: "sz_sub r1 (length buf) = right1"
    unfolding right1_def using room b1 by (intro sz_sub_exact) simp_all
  have left1: "l1 + (v * lanes - length buf) = ls" using pos nb by (simp add: m_def n_def)
  have e4: "ext_inv s b left right arr4 ls right1 (reducemin minv2) (reducemax maxv2)"
    using pr(6) cb(4) by (simp add: ext_buf_def ext_inv_def right1_def)
  note d4 = part_invD[OF cb(3), folded right1_def]
  have r1q: "right1 = ls + q * c" using mr pos room by (simp add: right1_def)
  have cp: "0 < c" using U lanes by (simp add: c_def)
  have ne1: "ls \<noteq> right1" unfolding r1q using c2 cp by linarith
  have b4: "right1 \<le> length arr" "right1 < 2 ^ 64" "length arr4 = length arr"
    using d4 bound by simp_all
  have g2: "ls + c + c \<le> right1" unfolding r1q using c2 by linarith
  have lb: "ls + U * lanes \<le> length arr4" using g2 b4 by (simp add: c_def)
  from load_regs_left[OF lb] obtain vl where vl:
    "load_regs lanes arr4 (map (\<lambda>ii. ls + lanes * ii) [0..<U]) = Some vl"
    "length vl = U" "\<forall>v\<in>set vl. length v = lanes"
    "concat vl = seg arr4 ls (ls + U * lanes)"
    by blast
  have rb: "U * lanes \<le> right1" "right1 \<le> length arr4" using g2 b4 by (simp_all add: c_def)
  from load_regs_right[OF rb b4(2)] obtain vr where vr:
    "load_regs lanes arr4 (map (\<lambda>ii. sz_sub right1 (lanes * (U - ii))) [0..<U]) = Some vr"
    "length vr = U" "\<forall>v\<in>set vr. length v = lanes"
    "concat vr = seg arr4 (right1 - U * lanes) right1"
    by blast
  have g: "ls + c \<le> right1" using g2 by simp
  have i5: "part_inv p arr left right arr4 ls (ls + c) right1 right1 (mset (concat vl) + {#})"
    unfolding vl(4) c_def[symmetric] by (rule part_inv_load_left[OF cb(3)[folded right1_def] g])
  have i6: "part_inv p arr left right arr4 ls (ls + c) (right1 - c) right1
               (mset (concat vr) + (mset (concat vl) + {#}))"
    unfolding vr(4) c_def[symmetric] by (rule part_inv_load_right[OF i5 g2])
  have n': "right1 - c = ls + c + (q - 2) * (U * lanes)"
  proof -
    have "q * c = (q - 2) * c + 2 * c" using q2 by (simp add: algebra_simps)
    then show ?thesis using r1q by (simp add: c_def)
  qed
  have free: "(ls + c - ls) + (right1 - (right1 - c)) = 2 * (U * lanes)" using g2 by (simp add: c_def)
  have szr: "sz_sub right1 ls = right1 - ls" using g b4 by (intro sz_sub_exact) simp_all
  have szc: "sz_sub right1 c = right1 - c"
    using g b4 by (intro sz_sub_exact) simp_all
  have bound': "length arr < 2 ^ 64" by (rule bound)
  from partition_loop_unrolled_correct[OF lanes U bound n' i6 e4 pr(7,8) free refl]
  obtain arr5 l5 r5 minv5 maxv5 where lp:
    "partition_loop_unrolled lanes U ?pv arr4 (ls + c) (right1 - c) ls (sz_sub (right1 - ls) lanes)
        minv2 maxv2 = Some (arr5, l5, sz_sub (r5 - l5) lanes, minv5, maxv5)"
    "r5 = l5 + 2 * (U * lanes)"
    "part_inv p arr left right arr5 l5 l5 l5 r5 (mset (concat vr) + (mset (concat vl) + {#}))"
    "ext_inv s b left right arr5 l5 r5 (reducemin minv5) (reducemax maxv5)"
    "length minv5 = lanes" "length maxv5 = lanes"
    by blast
  have i7: "part_inv p arr left right arr5 l5 l5 l5 r5 (mset (concat vl) + (mset (concat vr) + {#}))"
    using lp(3) by (simp add: ac_simps)
  have rm5: "l5 + length vl * lanes \<le> r5" using lp(2) vl(2) by simp
  from partition_vecs_flush[OF lanes bound vl(3) i7 lp(4,5,6) rm5 refl]
  obtain arr6 l6 r6 minv6 maxv6 where f1:
    "partition_vecs lanes arr5 l5 (sz_sub (r5 - l5) lanes) vl ?pv minv5 maxv5
       = Some (arr6, l6, sz_sub (r6 - l6) lanes, minv6, maxv6)"
    "r6 - l6 = r5 - l5 - length vl * lanes" "l6 \<le> r6"
    "part_inv p arr left right arr6 l6 l6 l6 r6 (mset (concat vr) + {#})"
    "ext_inv s b left right arr6 l6 r6 (reducemin minv6) (reducemax maxv6)"
    "length minv6 = lanes" "length maxv6 = lanes"
    by blast
  have rm6: "l6 + length vr * lanes \<le> r6" using f1(2,3) lp(2) vl(2) vr(2) by simp
  from partition_vecs_flush[OF lanes bound vr(3) f1(4,5,6,7) rm6 refl]
  obtain arr7 l7 r7 minv7 maxv7 where f2:
    "partition_vecs lanes arr6 l6 (sz_sub (r6 - l6) lanes) vr ?pv minv6 maxv6
       = Some (arr7, l7, sz_sub (r7 - l7) lanes, minv7, maxv7)"
    "r7 - l7 = r6 - l6 - length vr * lanes" "l7 \<le> r7"
    "part_inv p arr left right arr7 l7 l7 l7 r7 {#}"
    "ext_inv s b left right arr7 l7 r7 (reducemin minv7) (reducemax maxv7)"
    by blast
  have eq: "r7 = l7" using f2(2,3) f1(2) lp(2) vl(2) vr(2) by simp
  have i: "part_inv p arr left right arr7 l7 l7 l7 l7 {#}" using f2(4) eq by simp
  have e: "ext_inv s b left right arr7 l7 l7 (reducemin minv7) (reducemax maxv7)"
    using f2(5) eq by simp
  have un: "U \<noteq> 0" using U by simp
  have pa: "partition_avx512_unrolled lanes U arr left right p s b
              = Some (arr7, l7, reducemin minv7, reducemax maxv7)"
    using pr(1) cb(1,2) vl(1) vr(1) lp(1) f1(1) f2(1)
    by (simp add: partition_avx512_unrolled_def un sz al(1) ne vv szb left1 ne1 szr szc
        right1_def[symmetric] c_def[symmetric] Let_def)
  show ?thesis using pa part_inv_done[OF i] ext_inv_done[OF i e] by blast
qed

lemma partitioned_at_index:
  fixes p :: "'a::linorder"
  assumes "partitioned_at p arr left right arr' k" and rl: "right \<le> length arr"
  shows "k = left + length (filter (\<lambda>x. x < p) (seg arr left right))"
proof -
  have d: "left \<le> k" "k \<le> right" "length arr' = length arr"
    "\<forall>x\<in>set (seg arr' left k). x < p" "\<forall>x\<in>set (seg arr' k right). p \<le> x"
    "mset (seg arr' left right) = mset (seg arr left right)"
    using assms by (simp_all add: partitioned_at_def)
  have sp: "seg arr' left right = seg arr' left k @ seg arr' k right"
    using d(1,2) by (rule seg_split)
  have f1: "filter (\<lambda>x. x < p) (seg arr' left k) = seg arr' left k"
    using d(4) by (simp add: filter_id_conv)
  have f2: "filter (\<lambda>x. x < p) (seg arr' k right) = []"
    using d(5) by (auto simp: filter_empty_conv)
  have "size (mset (seg arr' left right)) = size (mset (seg arr left right))" using d(6) by simp
  then have ln: "length (seg arr' left right) = length (seg arr left right)" by simp
  have "mset (filter (\<lambda>x. x < p) (seg arr' left right)) = mset (filter (\<lambda>x. x < p) (seg arr left right))"
    using d(6) by (simp add: mset_filter)
  then have "length (filter (\<lambda>x. x < p) (seg arr' left right))
               = length (filter (\<lambda>x. x < p) (seg arr left right))"
    by (metis size_mset)
  then have a: "length (seg arr' left k) = length (filter (\<lambda>x. x < p) (seg arr left right))"
    unfolding sp by (simp add: f1 f2)
  have "length (seg arr' left k) = k - left" using d(2,3) rl by (simp add: length_seg)
  then show ?thesis using a d(1) by simp
qed

text \<open>
  Claim C8 (as amended). The constants of the capability pack are parameters of the
  kernels, and the source relies on a relation between them that it never checks (``We
  will now have atleast 16 registers worth of data to process''). Provided every range
  longer than the network sort threshold holds at least \<open>2 * num_unroll\<close> registers and at
  least two registers (\<open>2 * U * lanes \<le> threshold + 1\<close> and \<open>2 * lanes \<le> threshold + 1\<close>),
  on every range the drivers hand to it \<open>partition_avx512_unrolled\<close> and
  \<open>partition_avx512\<close> both return, with the same index, each leaving the range partitioned
  around the pivot (\<open>partitioned_at\<close>: cells below the pivot before the index, the others
  from it on, the range permuted, nothing else written), and both report the true extremes
  of the range when seeded with \<open>type_max\<close> and \<open>type_min\<close>. The unrolled variant stays
  within its buffer of \<open>U * lanes\<close> cells: a store beyond it is \<open>None\<close> in the model.
\<close>

theorem partition_unrolled_same_contract:
  fixes p :: "'a::linorder"
  assumes "0 < lanes" and "2 * lanes \<le> Suc threshold" and "2 * U * lanes \<le> Suc threshold"
    and "left + threshold < right" and "right \<le> length arr" and "length arr < 2 ^ 64"
    and "\<forall>x\<in>set (seg arr left right). type_min \<le> x \<and> x \<le> type_max"
  shows "\<exists>arr1 arr2 k.
           partition_avx512_unrolled lanes U arr left right p type_max type_min
             = Some (arr1, k, Min (set (seg arr left right)), Max (set (seg arr left right)))
           \<and> partition_avx512 lanes arr left right p type_max type_min
             = Some (arr2, k, Min (set (seg arr left right)), Max (set (seg arr left right)))
           \<and> partitioned_at p arr left right arr1 k
           \<and> partitioned_at p arr left right arr2 k"
proof -
  let ?S = "set (seg arr left right)"
  have lr: "left \<le> right" using assms(4) by simp
  have "length (seg arr left right) = right - left" using assms(5) by (rule length_seg)
  then have nel: "seg arr left right \<noteq> []" using assms(4) by auto
  then have ne: "?S \<noteq> {}" by simp
  obtain y0 ys where "seg arr left right = y0 # ys" using nel by (cases "seg arr left right") auto
  then have y0: "y0 \<in> ?S" by simp
  have mn: "Min (insert type_max ?S) = Min ?S"
  proof -
    have "Min ?S \<le> y0" using y0 by (intro Min_le) simp_all
    moreover have "y0 \<le> type_max" using assms(7) y0 by blast
    ultimately have "Min ?S \<le> type_max" by (rule order_trans)
    then have "min type_max (Min ?S) = Min ?S" by (rule min.absorb2)
    moreover have "Min (insert type_max ?S) = min type_max (Min ?S)"
      using ne by (intro Min_insert) simp_all
    ultimately show ?thesis by simp
  qed
  have mx: "Max (insert type_min ?S) = Max ?S"
  proof -
    have "y0 \<le> Max ?S" using y0 by (intro Max_ge) simp_all
    moreover have "type_min \<le> y0" using assms(7) y0 by blast
    ultimately have "type_min \<le> Max ?S" by (rule order_trans[rotated])
    then have "max type_min (Max ?S) = Max ?S" by (rule max.absorb2)
    moreover have "Max (insert type_min ?S) = max type_min (Max ?S)"
      using ne by (intro Max_insert) simp_all
    ultimately show ?thesis by simp
  qed
  have big: "left + 2 * lanes \<le> right" using assms(2,4) by simp
  have "(2 * lanes) div lanes \<le> (right - left) div lanes" using big by (intro div_le_mono) simp
  then have n1: "(right - left) div lanes \<noteq> 1" using assms(1) by simp
  from partition_avx512_correct[OF assms(1) lr assms(5,6), of p type_max type_min]
  obtain arr2 k2 s2 b2 where a:
    "partition_avx512 lanes arr left right p type_max type_min = Some (arr2, k2, s2, b2)"
    "partitioned_at p arr left right arr2 k2"
    "s2 = Min (insert type_max ?S)" "b2 = Max (insert type_min ?S)"
    using n1 by blast
  have k2: "k2 = left + length (filter (\<lambda>x. x < p) (seg arr left right))"
    using a(2) assms(5) by (rule partitioned_at_index)
  have "\<exists>arr1 k1. partition_avx512_unrolled lanes U arr left right p type_max type_min
                     = Some (arr1, k1, Min ?S, Max ?S)
                  \<and> partitioned_at p arr left right arr1 k1"
  proof (cases "U = 0")
    case True
    then show ?thesis using a unfolding mn mx by (simp add: partition_avx512_unrolled_def)
  next
    case False
    then have U: "0 < U" by simp
    have bigU: "left + 2 * U * lanes \<le> right" using assms(3,4) by simp
    from partition_avx512_unrolled_correct[OF assms(1) U assms(5,6) bigU, of p type_max type_min]
    show ?thesis unfolding mn mx by blast
  qed
  then obtain arr1 k1 where u:
    "partition_avx512_unrolled lanes U arr left right p type_max type_min
       = Some (arr1, k1, Min ?S, Max ?S)"
    "partitioned_at p arr left right arr1 k1"
    by blast
  have k1: "k1 = left + length (filter (\<lambda>x. x < p) (seg arr left right))"
    using u(2) assms(5) by (rule partitioned_at_index)
  show ?thesis using a u k1 k2 unfolding mn mx by blast
qed

theorem partition_unrolled_same_contract_witness:
  "0 < (2::nat) \<and> 2 * 2 \<le> Suc 8 \<and> 2 * 2 * 2 \<le> Suc 8 \<and> 0 + 8 < (17::nat)
   \<and> (\<exists>arr1 arr2 k.
         partition_avx512_unrolled 2 2 [3, 1, 4, 1, 5, 9, 2, 6, 5, 3, 5, 8, 9, 7, 9, 3, 2 :: int]
            0 17 5 100 (- 100) = Some (arr1, k, 1, 9)
         \<and> partition_avx512 2 [3, 1, 4, 1, 5, 9, 2, 6, 5, 3, 5, 8, 9, 7, 9, 3, 2 :: int]
            0 17 5 100 (- 100) = Some (arr2, k, 1, 9)
         \<and> partitioned_at 5 [3, 1, 4, 1, 5, 9, 2, 6, 5, 3, 5, 8, 9, 7, 9, 3, 2] 0 17 arr1 k
         \<and> partitioned_at 5 [3, 1, 4, 1, 5, 9, 2, 6, 5, 3, 5, 8, 9, 7, 9, 3, 2] 0 17 arr2 k)"
proof -
  let ?A = "[3, 1, 4, 1, 5, 9, 2, 6, 5, 3, 5, 8, 9, 7, 9, 3, 2 :: int]"
  have s: "seg ?A 0 17 = ?A" by (simp add: seg_def)
  have h: "\<forall>x\<in>set (seg ?A 0 17). - 100 \<le> x \<and> x \<le> 100" unfolding s by simp
  have m: "Min (set (seg ?A 0 17)) = 1" "Max (set (seg ?A 0 17)) = 9" unfolding s by simp_all
  show ?thesis
    using partition_unrolled_same_contract [of 2 8 2 0 17 ?A "- 100" 100 5, OF _ _ _ _ _ _ h]
    unfolding m by simp
qed

text \<open>
  Without the hypothesis on the constants the unrolled kernel leaves its range: with two
  lanes and \<open>num_unroll = 2\<close>, a range of five cells leaves exactly one round of
  registers, \<^verbatim>\<open>vec_left\<close> and \<^verbatim>\<open>vec_right\<close> are the same cells, \<open>right\<close> drops below
  \<open>left\<close>, and the loop reads beyond the array.
\<close>

lemma partition_unrolled_one_round:
  "partition_avx512_unrolled 2 2 [3, 1, 4, 1, 5 :: int] 0 5 2 100 (- 100) = None"
  by code_simp

text \<open>
  The claim as stated, for every pack, fails at constants the pack interface allows: eight
  lanes, \<open>num_unroll = 8\<close> and a network sort threshold of 64 (a power of two, at least
  the lane count, at most 128). The driver partitions every range of more than 64 cells;
  on the 65 cells \<open>0, ..., 64\<close> with pivot 32 and the seeds 64 and 0, the scalar loop
  consumes one cell and leaves exactly eight registers, \<^verbatim>\<open>vec_left\<close> and \<^verbatim>\<open>vec_right\<close>
  are loaded from the same 64 cells, \<open>right\<close> drops below \<open>left\<close>, and the main loop reads
  beyond the array: the unrolled kernel has no result, while the non-unrolled kernel
  returns on the same range. With eight lanes, unrolling disabled (\<open>num_unroll = 0\<close>, the
  unrolled kernel forwards to the non-unrolled one) and a threshold of 8, the driver
  partitions a range of nine cells: the scalar loop leaves exactly one register, and the
  kernel returns without writing \<^verbatim>\<open>*smallest\<close> and \<^verbatim>\<open>*biggest\<close>, which hold the one cell the
  scalar loop saw, 7, where the extremes of the range are 1 and 9.
\<close>

theorem partition_unrolled_counterexample:
  "(0::nat) + 64 < 65
   \<and> partition_avx512_unrolled 8 8 [0 ..< 65] 0 65 32 64 0 = None
   \<and> partition_avx512 8 [0 ..< 65] 0 65 32 64 0 \<noteq> None
   \<and> (0::nat) + 8 < 9
   \<and> partition_avx512_unrolled 8 0 [7, 3, 1, 4, 1, 5, 9, 2, 6 :: int] 0 9 4 100 (- 100)
       = Some ([3, 1, 1, 2, 6, 4, 5, 9, 7], 4, 7, 7)"
proof -
  have "partition_avx512_unrolled 8 8 [0 ..< 65] 0 65 32 64 0 = None" by code_simp
  moreover have "partition_avx512 8 [0 ..< 65] 0 65 32 64 0 \<noteq> None"
    using partition_avx512_correct [of 8 0 65 "[0 ..< 65]" 32 64 0] by auto
  moreover have "partition_avx512_unrolled 8 0 [7, 3, 1, 4, 1, 5, 9, 2, 6 :: int] 0 9 4 100 (- 100)
                   = Some ([3, 1, 1, 2, 6, 4, 5, 9, 7], 4, 7, 7)"
    by code_simp
  ultimately show ?thesis by simp
qed

section \<open>Pivot samplers: the 16-bit sampler\<close>

lemma nth_in_seg: "a \<le> i \<Longrightarrow> i < b \<Longrightarrow> b \<le> length xs \<Longrightarrow> xs ! i \<in> set (seg xs a b)"
proof -
  assume h: "a \<le> i" "i < b" "b \<le> length xs"
  have "seg xs a b ! (i - a) = xs ! i" using h by (simp add: seg_def)
  moreover have "i - a < length (seg xs a b)" using h by (simp add: length_seg)
  ultimately show ?thesis by (metis nth_mem)
qed

text \<open>
  Claim C6 (as amended). For 16-bit keys (32 lanes) the sampler returns the element at
  index 16 of the sorted sample of the 32 cells at the positions \<open>left + size * i\<close> for
  \<open>i = 0, ..., 31\<close>, where \<open>size = (right - left) div 32\<close>: sampling starts at \<open>A[left]\<close>
  itself. The pivot is a cell of \<open>A[left..right]\<close>.
\<close>

theorem get_pivot_16bit_samples:
  fixes arr :: "'a::linorder list"
  assumes "left \<le> right" and "right < length arr" and "length arr < 2 ^ 64"
  shows "\<exists>p. get_pivot 32 arr left right = Some p
           \<and> p = sort (map (\<lambda>i. arr ! (left + i * ((right - left) div 32))) [0..<32]) ! 16
           \<and> p \<in> set (seg arr left (Suc right))"
proof -
  define sz where "sz = (right - left) div 32"
  define idxs where "idxs = map (\<lambda>i. left + i * sz) [0..<32]"
  have s: "sz_sub right left div 32 = sz"
    using assms by (simp add: sz_def sz_sub_exact)
  have "[0..<32] = 0 # [1..<32]" by (simp add: upt_conv_Cons)
  then have l: "left # map (\<lambda>i. left + i * sz) [1..<32] = idxs" by (simp add: idxs_def)
  have "32 * sz \<le> right - left" unfolding sz_def by simp
  then have b: "i * sz \<le> right - left" if "i < 32" for i
    using that mult_le_mono1[of i 32 sz] by linarith
  have inr: "left \<le> j \<and> j \<le> right" if "j \<in> set idxs" for j
  proof -
    from that obtain i where i: "i < 32" "j = left + i * sz" by (auto simp: idxs_def)
    show ?thesis using b[OF i(1)] i(2) assms(1) by linarith
  qed
  then have ok: "list_all (\<lambda>i. i < length arr) idxs"
    using assms(2) by (auto simp: list_all_iff dest: inr)
  let ?sample = "map (\<lambda>i. arr ! i) idxs"
  have g: "get_pivot 32 arr left right = Some (sort ?sample ! 16)"
    unfolding get_pivot_def get_pivot_16bit_def Let_def s l read_cells_def sort_vec_def
    using ok by simp
  have e: "?sample = map (\<lambda>i. arr ! (left + i * sz)) [0..<32]" by (simp add: idxs_def comp_def)
  have "length (sort ?sample) = 32" by (simp add: idxs_def)
  then have "sort ?sample ! 16 \<in> set (sort ?sample)" by (intro nth_mem) simp
  then have "sort ?sample ! 16 \<in> set ?sample" by simp
  then obtain j where j: "j \<in> set idxs" "sort ?sample ! 16 = arr ! j" by auto
  have "arr ! j \<in> set (seg arr left (Suc right))"
    using inr[OF j(1)] assms(2) by (intro nth_in_seg) simp_all
  then show ?thesis using g j(2) unfolding e sz_def by simp
qed

theorem get_pivot_16bit_samples_witness:
  "(0::nat) \<le> 32 \<and> 32 < length [0..<33]
   \<and> (\<exists>p. get_pivot 32 [0..<33] 0 32 = Some p
          \<and> p = sort (map (\<lambda>i. [0..<33] ! (0 + i * ((32 - 0) div 32))) [0..<32]) ! 16
          \<and> p \<in> set (seg [0..<33] 0 (Suc 32)))"
  using get_pivot_16bit_samples [of 0 32 "[0..<33]"] by simp

text \<open>
  The claim as stated fails: on the array \<open>0, 1, ..., 32\<close> with \<open>left = 0\<close> and
  \<open>right = 32\<close> (so \<open>size = 1\<close>) the code samples the cells \<open>0, ..., 31\<close> and returns 16;
  the sample at the positions \<open>left + size * i\<close> for \<open>i = 1, ..., 32\<close> gives 17.
\<close>

theorem get_pivot_16bit_counterexample:
  "get_pivot 32 [0..<33] 0 32 = Some 16 \<and> spec_pivot_16bit [0..<33] 0 32 = Some 17"
  by code_simp

section \<open>The key-index partition: keys equal to the pivot\<close>

text \<open>
  Claim C4. The key-index partition is claimed to route every key equal to the pivot to
  the right side, as the single-array kernel does. Its scalar loop tests
  \<^verbatim>\<open>keys[left] > pivot\<close> where the single-array kernel tests
  \<^verbatim>\<open>!comparison_func<vtype>(arr[left], pivot)\<close>, and its own vector path uses \<^verbatim>\<open>ge\<close>: a
  key equal to the pivot that the scalar loop inspects stays on the left. With eight
  lanes, nine keys and pivot 5, the scalar loop inspects \<open>keys[0] = 5\<close> and leaves it in
  place; the register that follows is partitioned with \<^verbatim>\<open>ge\<close> and sends its own 5 to the
  right. The index returned is 5, and \<open>keys[0..5)\<close> holds the key 5, which is not below
  the pivot.
\<close>

theorem partition_avx512_kv_equal_key_left:
  "partition_avx512_kv 8 [5, 1, 7, 5, 2, 9, 3, 8, 0 :: int] [0, 1, 2, 3, 4, 5, 6, 7, 8 :: nat]
      0 9 5 100 (- 100)
     = Some ([5, 1, 2, 3, 0, 7, 5, 9, 8], [0, 1, 4, 6, 8, 2, 3, 5, 7], 5, 0, 9)"
  by code_simp

section \<open>The drivers on short arrays and on an empty prefix\<close>

text \<open>
  Claim C10. For every array and every \<open>N \<le> 1\<close>, \<^verbatim>\<open>avx512_qsort(A, N)\<close> returns the array
  as it was, for a type that is not floating-point and for a floating-point type: the
  guard \<^verbatim>\<open>if (arrsize > 1)\<close> skips the NaN pre-pass, the sort and the post-pass, so a NaN
  cell keeps its payload and sign bits.
\<close>

theorem avx512_qsort_short_unchanged:
  "N \<le> 1 \<Longrightarrow>
     avx512_qsort lanes threshold U type_max type_min get_pivot_blocks arr N = Some arr
     \<and> avx512_qsort_float lanes' threshold' U' fmax fmin get_pivot_blocks' farr N = Some farr"
  by (simp add: avx512_qsort_def avx512_qsort_float_def)

theorem avx512_qsort_short_unchanged_witness:
  "(1::nat) \<le> 1
   \<and> avx512_qsort 8 64 8 100 (- 100) (\<lambda>arr left right. arr ! left) [3 :: int] 1 = Some [3]
   \<and> avx512_qsort_float 16 128 8 (Num 100) (Num (- 100)) (\<lambda>arr left right. arr ! left)
        [NaN 5 :: int fp] 1 = Some [NaN 5]"
  using avx512_qsort_short_unchanged
    [of 1 8 64 8 100 "- 100" "\<lambda>arr left right. arr ! left" "[3 :: int]"
        16 128 8 "Num 100" "Num (- 100)" "\<lambda>arr left right. arr ! left" "[NaN 5 :: int fp]"]
  by simp

text \<open>
  Claim C7. The partial sort is claimed to hold its postcondition for every \<open>k\<close> from 0 to
  \<open>N\<close>, and at \<open>k = 0\<close> to leave the array a permutation of itself.
  \<^verbatim>\<open>avx512_partial_qsort\<close> computes \<^verbatim>\<open>k - 1\<close> in \<open>arrsize_t\<close> without a test for \<open>k = 0\<close>:
  it wraps to \<open>2^64 - 1\<close>. On the two cells \<open>[2, 1]\<close> (eight lanes, threshold 64, unroll
  factor 4) the selection is skipped (\<^verbatim>\<open>indx_last_elem >= k\<close> is false), and
  \<^verbatim>\<open>avx512_qsort(arr, k - 1)\<close> sorts a range of \<open>2^64 - 1\<close> cells: the partition swaps
  \<open>arr[0]\<close> with the cell at \<open>2^64 - 2\<close>, outside the array. The call has no result.
\<close>

theorem avx512_partial_qsort_zero_prefix:
  "avx512_partial_qsort 8 64 4 1000 (- 1000) (\<lambda>arr left right. arr ! left) [2, 1 :: int] 0 2
     = None"
  by code_simp

section \<open>The quicksort driver: correctness\<close>

lemma sz_pred_succ: "m < 2 ^ 64 \<Longrightarrow> sz_add (sz_sub m 1) 1 = m"
proof (cases "m = 0")
  case True
  then show ?thesis by (simp add: sz_add_def sz_sub_def)
next
  case False
  assume "m < 2 ^ 64"
  then have "sz_sub m 1 = m - 1" using False by (intro sz_sub_exact) simp_all
  then show ?thesis using False \<open>m < 2 ^ 64\<close> by (simp add: sz_add_def)
qed

lemma length_sorted_range:
  "a \<le> b \<Longrightarrow> b \<le> length arr \<Longrightarrow> length (sorted_range arr a b) = length arr"
  by (simp add: sorted_range_def length_seg)

lemma take_sorted_range:
  "a \<le> b \<Longrightarrow> b \<le> length arr \<Longrightarrow> take a (sorted_range arr a b) = take a arr"
  by (simp add: sorted_range_def)

lemma take_sorted_range_end:
  "a \<le> b \<Longrightarrow> b \<le> length arr \<Longrightarrow> take b (sorted_range arr a b) = take a arr @ sort (seg arr a b)"
  by (simp add: sorted_range_def length_seg)

lemma drop_sorted_range:
  "a \<le> b \<Longrightarrow> b \<le> length arr \<Longrightarrow> c \<ge> b \<Longrightarrow> drop c (sorted_range arr a b) = drop c arr"
proof -
  assume h: "a \<le> b" "b \<le> length arr" "c \<ge> b"
  have "length (take a arr @ sort (seg arr a b)) = b" using h by (simp add: length_seg)
  then have "drop b (sorted_range arr a b) = drop b arr"
    unfolding sorted_range_def by (metis append.assoc append_eq_conv_conj)
  then have "drop (c - b) (drop b (sorted_range arr a b)) = drop (c - b) (drop b arr)" by simp
  then show ?thesis using h by simp
qed

lemma seg_sorted_range:
  "a \<le> b \<Longrightarrow> b \<le> length arr \<Longrightarrow> seg (sorted_range arr a b) a b = sort (seg arr a b)"
  by (simp add: sorted_range_def seg_def)

lemma seg_sorted_range_after:
  "a \<le> b \<Longrightarrow> b \<le> length arr \<Longrightarrow> b \<le> c \<Longrightarrow> seg (sorted_range arr a b) c d = seg arr c d"
  unfolding seg_def by (simp add: drop_sorted_range)

lemma sorted_range_empty: "a \<le> length arr \<Longrightarrow> sorted_range arr a a = arr"
  by (simp add: sorted_range_def seg_empty)

lemma sorted_range_sorted:
  "sorted (seg arr a b) \<Longrightarrow> a \<le> b \<Longrightarrow> b \<le> length arr \<Longrightarrow> sorted_range arr a b = arr"
proof -
  assume h: "sorted (seg arr a b)" "a \<le> b" "b \<le> length arr"
  have "sort (seg arr a b) = seg arr a b" using h(1) by (rule sorted_sort_id)
  then show ?thesis unfolding sorted_range_def using seg_whole_parts[OF h(2,3)] by simp
qed

lemma std_sort_Some:
  "first \<le> lst \<Longrightarrow> lst \<le> length arr \<Longrightarrow> std_sort arr first lst = Some (sorted_range arr first lst)"
  by (simp add: std_sort_def sorted_range_def)

lemma sort_n_Some:
  "n \<le> maxN \<Longrightarrow> left + n \<le> length arr
     \<Longrightarrow> sort_n maxN arr left n = Some (sorted_range arr left (left + n))"
  by (simp add: sort_n_def sorted_range_def)

text \<open>Two sorted pieces around a pivot are the sorted whole.\<close>

lemma sort_two_parts:
  fixes p :: "'a::linorder"
  assumes "\<forall>x\<in>set ls. x < p" and "\<forall>x\<in>set hs. p \<le> x" and "mset ls + mset hs = mset xs"
  shows "sort ls @ sort hs = sort xs"
proof -
  have "sorted (sort ls @ sort hs)"
    using assms(1,2) by (fastforce simp: sorted_append)
  moreover have "mset (sort ls @ sort hs) = mset xs" using assms(3) by simp
  ultimately show ?thesis by (metis properties_for_sort)
qed

text \<open>
  The partition the driver calls, on a range longer than the threshold, under the relation
  between the constants of the pack.
\<close>

lemma partition_unrolled_driver:
  fixes p :: "'a::linorder"
  assumes "0 < lanes" and "2 * lanes \<le> Suc threshold" and "2 * U * lanes \<le> Suc threshold"
    and "left + threshold < right" and "right \<le> length arr" and "length arr < 2 ^ 64"
    and "\<forall>x\<in>set (seg arr left right). type_min \<le> x \<and> x \<le> type_max"
  shows "\<exists>arr1 k.
           partition_avx512_unrolled lanes U arr left right p type_max type_min
             = Some (arr1, k, Min (set (seg arr left right)), Max (set (seg arr left right)))
           \<and> partitioned_at p arr left right arr1 k"
proof -
  let ?S = "set (seg arr left right)"
  have lr: "left \<le> right" using assms(4) by simp
  have "length (seg arr left right) = right - left" using assms(5) by (rule length_seg)
  then have nel: "seg arr left right \<noteq> []" using assms(4) by auto
  then have ne: "?S \<noteq> {}" by simp
  obtain y0 ys where "seg arr left right = y0 # ys" using nel by (cases "seg arr left right") auto
  then have y0: "y0 \<in> ?S" by simp
  have mn: "Min (insert type_max ?S) = Min ?S"
  proof -
    have "Min ?S \<le> y0" using y0 by (intro Min_le) simp_all
    moreover have "y0 \<le> type_max" using assms(7) y0 by blast
    ultimately have "Min ?S \<le> type_max" by (rule order_trans)
    then have "min type_max (Min ?S) = Min ?S" by (rule min.absorb2)
    moreover have "Min (insert type_max ?S) = min type_max (Min ?S)"
      using ne by (intro Min_insert) simp_all
    ultimately show ?thesis by simp
  qed
  have mx: "Max (insert type_min ?S) = Max ?S"
  proof -
    have "y0 \<le> Max ?S" using y0 by (intro Max_ge) simp_all
    moreover have "type_min \<le> y0" using assms(7) y0 by blast
    ultimately have "type_min \<le> Max ?S" by (rule order_trans[rotated])
    then have "max type_min (Max ?S) = Max ?S" by (rule max.absorb2)
    moreover have "Max (insert type_min ?S) = max type_min (Max ?S)"
      using ne by (intro Max_insert) simp_all
    ultimately show ?thesis by simp
  qed
  show ?thesis
  proof (cases "U = 0")
    case True
    have big: "left + 2 * lanes \<le> right" using assms(2,4) by simp
    have "(2 * lanes) div lanes \<le> (right - left) div lanes" using big by (intro div_le_mono) simp
    then have n1: "(right - left) div lanes \<noteq> 1" using assms(1) by simp
    from partition_avx512_correct[OF assms(1) lr assms(5,6), of p type_max type_min]
    obtain arr2 k2 s2 b2 where a:
      "partition_avx512 lanes arr left right p type_max type_min = Some (arr2, k2, s2, b2)"
      "partitioned_at p arr left right arr2 k2"
      "s2 = Min (insert type_max ?S)" "b2 = Max (insert type_min ?S)"
      using n1 by blast
    then show ?thesis using True unfolding mn mx by (simp add: partition_avx512_unrolled_def)
  next
    case False
    then have U: "0 < U" by simp
    have bigU: "left + 2 * U * lanes \<le> right" using assms(3,4) by simp
    from partition_avx512_unrolled_correct[OF assms(1) U assms(5,6) bigU, of p type_max type_min]
    show ?thesis unfolding mn mx by blast
  qed
qed

lemma qsort_rec_sorts:
  fixes arr :: "'a::linorder list"
  assumes pack: "0 < lanes" "2 * lanes \<le> Suc threshold" "2 * U * lanes \<le> Suc threshold"
  shows "length arr < 2 ^ 64 \<Longrightarrow> left + n \<le> length arr
     \<Longrightarrow> \<forall>x\<in>set (seg arr left (left + n)). type_min \<le> x \<and> x \<le> type_max
     \<Longrightarrow> qsort_rec lanes threshold U type_max type_min get_pivot_blocks arr left
           (sz_sub (left + n) 1) max_iters
         = Some (sorted_range arr left (left + n))"
proof (induction max_iters arbitrary: arr left n)
  case 0
  have m: "left + n < 2 ^ 64" using 0(1,2) by simp
  have "std_sort arr left (left + n) = Some (sorted_range arr left (left + n))"
    using 0(2) by (intro std_sort_Some) simp_all
  then show ?case
    by (simp add: qsort_rec.simps[of _ _ _ _ _ _ _ _ _ 0] sz_pred_succ[OF m, unfolded One_nat_def])
next
  case (Suc m)
  let ?right = "sz_sub (left + n) 1"
  let ?R = "left + n"
  have mR: "?R < 2 ^ 64" using Suc.prems(1,2) by simp
  have r1: "sz_add ?right 1 = ?R" using mR by (rule sz_pred_succ)
  note r1s = r1[unfolded One_nat_def]
  have len: "sz_sub ?R left = n" using mR by (simp add: sz_sub_exact)
  show ?case
  proof (cases "n \<le> threshold")
    case True
    have "sort_n threshold arr left n = Some (sorted_range arr left ?R)"
      using True Suc.prems(2) by (rule sort_n_Some)
    then show ?thesis using True
      by (simp add: qsort_rec.simps[of _ _ _ _ _ _ _ _ _ "Suc m"] r1s len)
  next
    case False
    define p where "p = get_pivot_blocks arr left ?right"
    let ?S = "set (seg arr left ?R)"
    have big: "left + threshold < ?R" using False by simp
    from partition_unrolled_driver[OF pack big Suc.prems(2,1,3), of p]
    obtain arr1 k where part:
      "partition_avx512_unrolled lanes U arr left ?R p type_max type_min
         = Some (arr1, k, Min ?S, Max ?S)"
      and pa: "partitioned_at p arr left ?R arr1 k"
      by blast
    have d: "left \<le> k" "k \<le> ?R" "length arr1 = length arr"
      "take left arr1 = take left arr" "drop ?R arr1 = drop ?R arr"
      "\<forall>x\<in>set (seg arr1 left k). x < p" "\<forall>x\<in>set (seg arr1 k ?R). p \<le> x"
      "mset (seg arr1 left ?R) = mset (seg arr left ?R)"
      using pa unfolding partitioned_at_def by blast+
    have kl: "k \<le> length arr1" using d(2,3) Suc.prems(2) by simp
    have Rl: "?R \<le> length arr1" using d(3) Suc.prems(2) by simp
    have split: "seg arr1 left ?R = seg arr1 left k @ seg arr1 k ?R"
      using d(1,2) by (rule seg_split)
    have setS: "set (seg arr1 left ?R) = ?S" using d(8) by (rule mset_eq_setD)
    have fin: "finite ?S" by simp
    \<comment> \<open>the left part\<close>
    define arr2 where "arr2 = sorted_range arr1 left k"
    have left_call:
      "(if p \<noteq> Min ?S
        then qsort_rec lanes threshold U type_max type_min get_pivot_blocks arr1 left
               (sz_sub k 1) m
        else Some arr1) = Some arr2"
    proof (cases "p = Min ?S")
      case True
      have "seg arr1 left k = []"
      proof (rule ccontr)
        assume "seg arr1 left k \<noteq> []"
        then obtain x where x: "x \<in> set (seg arr1 left k)" by (cases "seg arr1 left k") auto
        then have "x < p" using d(6) by blast
        moreover have "x \<in> ?S" using x split setS by auto
        then have "Min ?S \<le> x" using fin by (intro Min_le)
        ultimately show False using True by simp
      qed
      then have "sorted (seg arr1 left k)" by simp
      then have "arr2 = arr1" unfolding arr2_def using d(1) kl by (rule sorted_range_sorted)
      then show ?thesis using True by simp
    next
      case False
      have k': "k = left + (k - left)" using d(1) by simp
      have b: "\<forall>x\<in>set (seg arr1 left (left + (k - left))). type_min \<le> x \<and> x \<le> type_max"
      proof
        fix x assume "x \<in> set (seg arr1 left (left + (k - left)))"
        then have "x \<in> set (seg arr1 left k)" using k' by simp
        then have "x \<in> ?S" using split setS by auto
        then show "type_min \<le> x \<and> x \<le> type_max" using Suc.prems(3) by blast
      qed
      have l1: "length arr1 < 2 ^ 64" using d(3) Suc.prems(1) by simp
      have l2: "left + (k - left) \<le> length arr1" using kl d(1) by simp
      have "qsort_rec lanes threshold U type_max type_min get_pivot_blocks arr1 left
              (sz_sub (left + (k - left)) 1) m
            = Some (sorted_range arr1 left (left + (k - left)))"
        using l1 l2 b by (rule Suc.IH)
      then show ?thesis using False k'[symmetric] unfolding arr2_def by simp
    qed
    have len2: "length arr2 = length arr" unfolding arr2_def using d(1,3) kl
      by (simp add: length_sorted_range)
    have seg2: "seg arr2 k ?R = seg arr1 k ?R"
      unfolding arr2_def using d(1) kl by (intro seg_sorted_range_after) simp_all
    \<comment> \<open>the right part\<close>
    define arr3 where "arr3 = sorted_range arr2 k ?R"
    have right_call:
      "(if p \<noteq> Max ?S
        then qsort_rec lanes threshold U type_max type_min get_pivot_blocks arr2 k ?right m
        else Some arr2) = Some arr3"
    proof (cases "p = Max ?S")
      case True
      have "\<forall>x\<in>set (seg arr2 k ?R). x = p"
      proof
        fix x assume x: "x \<in> set (seg arr2 k ?R)"
        then have "p \<le> x" using d(7) seg2 by simp
        moreover have "x \<in> ?S" using x seg2 split setS by auto
        then have "x \<le> Max ?S" using fin by (intro Max_ge)
        ultimately show "x = p" using True by simp
      qed
      then have "sorted (seg arr2 k ?R)" 
        by (metis (full_types) sorted_replicate replicate_length_same)
      then have "arr3 = arr2" unfolding arr3_def using d(2) Rl len2 d(3)
        by (intro sorted_range_sorted) simp_all
      then show ?thesis using True by simp
    next
      case False
      have R': "?R = k + (?R - k)" using d(2) by simp
      have b: "\<forall>x\<in>set (seg arr2 k (k + (?R - k))). type_min \<le> x \<and> x \<le> type_max"
      proof
        fix x assume "x \<in> set (seg arr2 k (k + (?R - k)))"
        then have "x \<in> set (seg arr1 k ?R)" using R' seg2 by simp
        then have "x \<in> ?S" using split setS by auto
        then show "type_min \<le> x \<and> x \<le> type_max" using Suc.prems(3) by blast
      qed
      have l1: "length arr2 < 2 ^ 64" using len2 Suc.prems(1) by simp
      have l2: "k + (?R - k) \<le> length arr2" using len2 Suc.prems(2) d(2) by simp
      have "qsort_rec lanes threshold U type_max type_min get_pivot_blocks arr2 k
              (sz_sub (k + (?R - k)) 1) m
            = Some (sorted_range arr2 k (k + (?R - k)))"
        using l1 l2 b by (rule Suc.IH)
      then show ?thesis using False R'[symmetric] unfolding arr3_def by simp
    qed
    \<comment> \<open>the whole\<close>
    have "arr3 = sorted_range arr left ?R"
    proof -
      have t2: "take k arr2 = take left arr1 @ sort (seg arr1 left k)"
        unfolding arr2_def using d(1) kl by (rule take_sorted_range_end)
      have d2: "drop ?R arr2 = drop ?R arr1"
        unfolding arr2_def using d(1) kl d(2) by (rule drop_sorted_range)
      have "arr3 = take k arr2 @ sort (seg arr2 k ?R) @ drop ?R arr2"
        unfolding arr3_def sorted_range_def ..
      also have "\<dots> = take left arr @ (sort (seg arr1 left k) @ sort (seg arr1 k ?R)) @ drop ?R arr"
        unfolding t2 d2 seg2 d(4) d(5) by simp
      also have "sort (seg arr1 left k) @ sort (seg arr1 k ?R) = sort (seg arr left ?R)"
      proof (rule sort_two_parts[OF d(6) d(7)])
        show "mset (seg arr1 left k) + mset (seg arr1 k ?R) = mset (seg arr left ?R)"
          using d(8) unfolding split by simp
      qed
      finally show ?thesis unfolding sorted_range_def .
    qed
    moreover have nz: "\<not> Suc m \<le> 0" by simp
    have "qsort_rec lanes threshold U type_max type_min get_pivot_blocks arr left ?right (Suc m)
            = Some arr3"
      apply (subst qsort_rec.simps)
      unfolding r1 len p_def[symmetric] diff_Suc_1
      apply (simp only: nz False if_False part option.case prod.case left_call right_call)
      done
    ultimately show ?thesis by simp
  qed
qed

section \<open>The NaN passes of the floating-point sort: correctness\<close>

lemma stored_stored_adjacent:
  "i + length xs + length ys \<le> length arr
     \<Longrightarrow> stored (stored arr i xs) (i + length xs) ys = stored arr i (xs @ ys)"
  by (simp add: stored_def ac_simps)

lemma nth_stored_after:
  assumes "i + length xs \<le> q" and "q < length arr"
  shows "stored arr i xs ! q = arr ! q"
proof -
  have l: "i + length xs \<le> length arr" using assms by simp
  have "drop q (stored arr i xs) = drop q arr" using assms(1) l by (rule drop_stored)
  moreover have "q < length (stored arr i xs)" using assms(2) l by (simp add: length_stored)
  ultimately show ?thesis using assms(2) by (metis hd_drop_conv_nth)
qed

lemma map_upt_nth_seg:
  "a + r \<le> length arr \<Longrightarrow> map (\<lambda>j. arr ! (a + j)) [0..<r] = seg arr a (a + r)"
  by (rule nth_equalityI) (simp_all add: seg_def)

text \<open>The register loaded by one round of the loop: the cells left, then the fill value.\<close>

lemma replace_nan_load:
  assumes lanes: "0 < lanes" and ii: "ii < N" and N: "N \<le> length arr" and b: "N < 2 ^ 64"
  defines "e \<equiv> min (ii + lanes) N"
  shows "(if sz_sub N ii < lanes
          then maskz_loadu fill (get_partial_loadmask lanes (sz_sub N ii)) arr ii
          else loadu lanes arr ii)
         = Some (seg arr ii e @ replicate (lanes - (e - ii)) fill)"
proof -
  have s: "sz_sub N ii = N - ii" using ii b by (intro sz_sub_exact) simp_all
  show ?thesis
  proof (cases "N - ii < lanes")
    case True
    then have e: "e = N" unfolding e_def by simp
    define r where "r = N - ii"
    have r: "r < lanes" "ii + r = N" using True ii unfolding r_def by simp_all
    have pre: "list_all (\<lambda>j. if get_partial_loadmask lanes r ! j then ii + j < length arr else True)
                 [0..<length (get_partial_loadmask lanes r)]"
      using r N by (auto simp: list_all_iff get_partial_loadmask_def)
    have "map (\<lambda>j. if get_partial_loadmask lanes r ! j then arr ! (ii + j) else fill)
            [0..<length (get_partial_loadmask lanes r)]
          = seg arr ii N @ replicate (lanes - r) fill"
    proof (rule nth_equalityI)
      show "length (map (\<lambda>j. if get_partial_loadmask lanes r ! j then arr ! (ii + j) else fill)
                      [0..<length (get_partial_loadmask lanes r)])
            = length (seg arr ii N @ replicate (lanes - r) fill)"
        using r N by (simp add: get_partial_loadmask_def length_seg)
    next
      fix j
      assume "j < length (map (\<lambda>j. if get_partial_loadmask lanes r ! j then arr ! (ii + j) else fill)
                      [0..<length (get_partial_loadmask lanes r)])"
      then have j: "j < lanes" by (simp add: get_partial_loadmask_def)
      have ls: "length (seg arr ii N) = r" using r N by (simp add: length_seg)
      show "map (\<lambda>j. if get_partial_loadmask lanes r ! j then arr ! (ii + j) else fill)
              [0..<length (get_partial_loadmask lanes r)] ! j
            = (seg arr ii N @ replicate (lanes - r) fill) ! j"
      proof (cases "j < r")
        case True
        then have "seg arr ii N ! j = arr ! (ii + j)" using r N by (simp add: seg_def)
        then show ?thesis using True j ls by (simp add: get_partial_loadmask_def nth_append)
      next
        case False
        then show ?thesis using j ls by (simp add: get_partial_loadmask_def nth_append)
      qed
    qed
    then have "maskz_loadu fill (get_partial_loadmask lanes r) arr ii
                 = Some (seg arr ii N @ replicate (lanes - r) fill)"
      using pre unfolding maskz_loadu_def by simp
    then show ?thesis using True unfolding s e r_def by simp
  next
    case False
    then have e: "e = ii + lanes" using ii unfolding e_def by simp
    have "ii + lanes \<le> length arr" using False N ii by simp
    then have "loadu lanes arr ii = Some (seg arr ii (ii + lanes))" by (rule loadu_Some)
    then show ?thesis using False unfolding s e by simp
  qed
qed

text \<open>
  A masked store of the fill value over the NaN lanes of the register just loaded replaces
  the NaN cells among the cells read.
\<close>

lemma replace_nan_store:
  assumes nf: "\<not> is_a_nan fill" and le: "ii + length xs \<le> length arr"
    and xs: "xs = seg arr ii (ii + length xs)" and n: "length xs + k = lanes"
  shows "mask_storeu arr ii (fpclass (xs @ replicate k fill)) (set1 lanes fill)
           = Some (stored arr ii (map (\<lambda>c. if is_a_nan c then fill else c) xs))"
proof -
  let ?m = "fpclass (xs @ replicate k fill)"
  have lm: "length ?m = lanes" using n by (simp add: fpclass_def)
  have mj: "?m ! j = (j < length xs \<and> is_a_nan (xs ! j))" if "j < lanes" for j
    using that n nf by (simp add: fpclass_def nth_append)
  have xj: "xs ! j = arr ! (ii + j)" if "j < length xs" for j
  proof -
    have "seg arr ii (ii + length xs) ! j = arr ! (ii + j)" using that le by (simp add: seg_def)
    then show ?thesis using xs by simp
  qed
  have pre: "list_all (\<lambda>j. if ?m ! j then ii + j < length arr else True) [0..<length ?m]"
    unfolding lm list_all_iff using mj le by auto
  have "map (\<lambda>q. if ii \<le> q \<and> q < ii + length ?m \<and> ?m ! (q - ii) then set1 lanes fill ! (q - ii)
                  else arr ! q) [0..<length arr]
        = stored arr ii (map (\<lambda>c. if is_a_nan c then fill else c) xs)"
  proof (rule nth_equalityI)
    show "length (map (\<lambda>q. if ii \<le> q \<and> q < ii + length ?m \<and> ?m ! (q - ii)
                            then set1 lanes fill ! (q - ii) else arr ! q) [0..<length arr])
          = length (stored arr ii (map (\<lambda>c. if is_a_nan c then fill else c) xs))"
      using le by (simp add: length_stored)
  next
    fix q
    assume "q < length (map (\<lambda>q. if ii \<le> q \<and> q < ii + length ?m \<and> ?m ! (q - ii)
                            then set1 lanes fill ! (q - ii) else arr ! q) [0..<length arr])"
    then have q: "q < length arr" by simp
    consider "q < ii" | "ii \<le> q" "q < ii + length xs" | "ii + length xs \<le> q" by linarith
    then show "map (\<lambda>q. if ii \<le> q \<and> q < ii + length ?m \<and> ?m ! (q - ii)
                          then set1 lanes fill ! (q - ii) else arr ! q) [0..<length arr] ! q
               = stored arr ii (map (\<lambda>c. if is_a_nan c then fill else c) xs) ! q"
    proof cases
      case 1
      then show ?thesis using q le by (simp add: stored_def nth_append)
    next
      case 2
      then have j: "q - ii < length xs" "q - ii < lanes" using n by simp_all
      have ql: "q < ii + lanes" using 2 n by simp
      have a: "stored arr ii (map (\<lambda>c. if is_a_nan c then fill else c) xs) ! q
               = (if is_a_nan (xs ! (q - ii)) then fill else xs ! (q - ii))"
        using 2 j le by (simp add: stored_def nth_append)
      have b: "xs ! (q - ii) = arr ! q" using xj[OF j(1)] 2 by simp
      show ?thesis unfolding a using 2 q ql j lm mj[OF j(2)] b by (simp add: set1_def)
    next
      case 3
      have a: "stored arr ii (map (\<lambda>c. if is_a_nan c then fill else c) xs) ! q = arr ! q"
        using 3 q by (intro nth_stored_after) simp_all
      have "\<not> (q < ii + length ?m \<and> ?m ! (q - ii))"
      proof
        assume h: "q < ii + length ?m \<and> ?m ! (q - ii)"
        then have "q < ii + lanes" using lm by simp
        then have "q - ii < lanes" using 3 by linarith
        then have "q - ii < length xs" using mj h by blast
        then show False using 3 by simp
      qed
      then show ?thesis unfolding a using q by auto
    qed
  qed
  then show ?thesis using pre unfolding mask_storeu_def by simp
qed

lemma popcnt_fpclass:
  "\<not> is_a_nan fill \<Longrightarrow> popcnt (fpclass (xs @ replicate k fill)) = nan_count_of xs"
  by (simp add: fpclass_def popcnt_def nan_count_of_def filter_map o_def)

lemma nan_count_of_le: "nan_count_of xs \<le> length xs"
  by (simp add: nan_count_of_def)

lemma nan_count_of_append: "nan_count_of (xs @ ys) = nan_count_of xs + nan_count_of ys"
  by (simp add: nan_count_of_def)

lemma replace_nan_loop_correct:
  assumes lanes: "0 < lanes" and nf: "\<not> is_a_nan fill"
  shows "N \<le> length arr \<Longrightarrow> length arr + lanes \<le> 2 ^ 64 \<Longrightarrow> cnt \<le> ii \<Longrightarrow>
         replace_nan_loop lanes fill arr N ii cnt
           = Some (stored arr ii (map (\<lambda>c. if is_a_nan c then fill else c) (seg arr ii N)),
                   cnt + nan_count_of (seg arr ii N))"
proof (induction "N - ii" arbitrary: arr ii cnt rule: less_induct)
  case less
  let ?repl = "\<lambda>c. if is_a_nan c then fill else c"
  show ?case
  proof (cases "ii < N")
    case False
    then have "seg arr ii N = []" by (simp add: seg_def)
    then show ?thesis using False
      by (simp add: replace_nan_loop.simps[of _ _ _ _ ii] stored_Nil nan_count_of_def)
  next
    case True
    define e where "e = min (ii + lanes) N"
    define xs where "xs = seg arr ii e"
    define k where "k = lanes - (e - ii)"
    define arr' where "arr' = stored arr ii (map ?repl xs)"
    define cnt' where "cnt' = cnt + nan_count_of xs"
    have Nb: "N < 2 ^ 64" using less.prems(1,2) lanes by simp
    have eN: "e \<le> N" "ii < e" "e \<le> ii + lanes" using True lanes unfolding e_def by simp_all
    have el: "e \<le> length arr" using eN less.prems(1) by simp
    have lxs: "length xs = e - ii" unfolding xs_def using el by (rule length_seg)
    have ie: "ii + length xs = e" using lxs eN by simp
    have lk: "length xs + k = lanes" unfolding k_def lxs using eN by simp
    have load: "(if sz_sub N ii < lanes
                 then maskz_loadu fill (get_partial_loadmask lanes (sz_sub N ii)) arr ii
                 else loadu lanes arr ii) = Some (xs @ replicate k fill)"
      using replace_nan_load[OF lanes True less.prems(1) Nb, of fill]
      unfolding xs_def k_def e_def .
    have xs2: "xs = seg arr ii (ii + length xs)" unfolding ie by (rule xs_def)
    have le: "ii + length xs \<le> length arr" unfolding ie by (rule el)
    have store: "mask_storeu arr ii (fpclass (xs @ replicate k fill)) (set1 lanes fill) = Some arr'"
      unfolding arr'_def using nf le xs2 lk by (rule replace_nan_store)
    have pc: "popcnt (fpclass (xs @ replicate k fill)) = nan_count_of xs"
      using nf by (rule popcnt_fpclass)
    have cl: "nan_count_of xs \<le> lanes" using nan_count_of_le[of xs] lk by simp
    have a1: "sz_add ii lanes = ii + lanes"
      using True less.prems(1,2) by (intro sz_add_exact) simp
    have a2: "sz_add cnt (nan_count_of xs) = cnt'"
      unfolding cnt'_def using cl less.prems(1,2,3) True by (intro sz_add_exact) simp
    have step: "replace_nan_loop lanes fill arr N ii cnt
                  = replace_nan_loop lanes fill arr' N (ii + lanes) cnt'"
      apply (subst replace_nan_loop.simps)
      apply (simp only: True if_True load option.case store pc a1 a2)
      done
    have la: "length arr' = length arr" unfolding arr'_def using le by (simp add: length_stored)
    have ih: "replace_nan_loop lanes fill arr' N (ii + lanes) cnt'
                = Some (stored arr' (ii + lanes) (map ?repl (seg arr' (ii + lanes) N)),
                        cnt' + nan_count_of (seg arr' (ii + lanes) N))"
    proof (rule less.hyps)
      show "N - (ii + lanes) < N - ii" using True lanes by simp
      show "N \<le> length arr'" using la less.prems(1) by simp
      show "length arr' + lanes \<le> 2 ^ 64" using la less.prems(2) by simp
      show "cnt' \<le> ii + lanes" unfolding cnt'_def using cl less.prems(3) by simp
    qed
    show ?thesis
    proof (cases "ii + lanes < N")
      case False
      then have e: "e = N" unfolding e_def by simp
      have "seg arr' (ii + lanes) N = []" using False by (simp add: seg_def)
      then have "replace_nan_loop lanes fill arr' N (ii + lanes) cnt' = Some (arr', cnt')"
        using ih by (simp add: stored_Nil nan_count_of_def)
      then show ?thesis unfolding step arr'_def cnt'_def xs_def e by simp
    next
      case T2: True
      then have e: "e = ii + lanes" unfolding e_def by simp
      have s1: "seg arr' e N = seg arr e N"
        unfolding arr'_def using ie le by (intro seg_stored_after) simp_all
      have sp: "seg arr ii N = xs @ seg arr e N"
        unfolding xs_def using eN by (intro seg_split) simp_all
      have l2: "length (seg arr e N) = N - e" using less.prems(1) by (rule length_seg)
      have "stored arr' e (map ?repl (seg arr e N))
              = stored (stored arr ii (map ?repl xs)) (ii + length (map ?repl xs))
                  (map ?repl (seg arr e N))"
        unfolding arr'_def using ie by simp
      also have "\<dots> = stored arr ii (map ?repl xs @ map ?repl (seg arr e N))"
        using ie l2 eN less.prems(1) by (intro stored_stored_adjacent) simp
      also have "\<dots> = stored arr ii (map ?repl (seg arr ii N))" unfolding sp by simp
      finally have st: "stored arr' e (map ?repl (seg arr' e N))
                          = stored arr ii (map ?repl (seg arr ii N))"
        unfolding s1 .
      have ct: "cnt' + nan_count_of (seg arr' e N) = cnt + nan_count_of (seg arr ii N)"
        unfolding s1 sp cnt'_def by (simp add: nan_count_of_append)
      show ?thesis unfolding step ih unfolding e[symmetric] st ct ..
    qed
  qed
qed

lemma replace_nan_with_inf_correct:
  assumes "0 < lanes" and "\<not> is_a_nan fill" and "N \<le> length arr"
    and "length arr + lanes \<le> 2 ^ 64"
  shows "replace_nan_with_inf lanes fill arr N
           = Some (map (\<lambda>c. if is_a_nan c then fill else c) (take N arr) @ drop N arr,
                   nan_count_of (take N arr))"
proof -
  have "replace_nan_loop lanes fill arr N 0 0
          = Some (stored arr 0 (map (\<lambda>c. if is_a_nan c then fill else c) (seg arr 0 N)),
                  0 + nan_count_of (seg arr 0 N))"
    using assms by (intro replace_nan_loop_correct) simp_all
  then show ?thesis
    using assms(3) by (simp add: replace_nan_with_inf_def stored_def seg_take)
qed

lemma replace_inf_loop_correct:
  "nc \<le> Suc ii \<Longrightarrow> ii < length arr \<Longrightarrow> length arr < 2 ^ 64 \<Longrightarrow>
     replace_inf_loop nc arr ii
       = Some (take (Suc ii - nc) arr @ replicate nc quiet_NaN @ drop (Suc ii) arr)"
proof (induction nc arbitrary: arr ii)
  case 0
  then show ?case by simp
next
  case (Suc nc)
  let ?arr' = "arr[ii := quiet_NaN]"
  show ?case
  proof (cases "nc = 0")
    case True
    have "take ii arr @ [quiet_NaN] @ drop (Suc ii) arr = ?arr'"
      using Suc.prems(2) by (simp add: upd_conv_take_nth_drop)
    then show ?thesis using True Suc.prems(2) by simp
  next
    case False
    then have i0: "0 < ii" using Suc.prems(1) by simp
    have s: "sz_sub ii 1 = ii - 1" using i0 Suc.prems(2,3) by (intro sz_sub_exact) simp_all
    have ih: "replace_inf_loop nc ?arr' (ii - 1)
                = Some (take (Suc (ii - 1) - nc) ?arr' @ replicate nc quiet_NaN
                        @ drop (Suc (ii - 1)) ?arr')"
      using Suc.prems i0 by (intro Suc.IH) simp_all
    have t: "take (ii - nc) ?arr' = take (ii - nc) arr" by simp
    have d: "drop ii ?arr' = quiet_NaN # drop (Suc ii) arr"
      using Suc.prems(2) by (simp add: upd_conv_take_nth_drop)
    have "replace_inf_loop (Suc nc) arr ii = replace_inf_loop nc ?arr' (ii - 1)"
      using Suc.prems(2) s by simp
    also have "\<dots> = Some (take (ii - nc) arr @ replicate nc quiet_NaN @ quiet_NaN # drop (Suc ii) arr)"
      unfolding ih using i0 t d by simp
    also have "replicate nc quiet_NaN @ quiet_NaN # drop (Suc ii) arr
                 = replicate (Suc nc) quiet_NaN @ drop (Suc ii) arr"
      by (simp add: replicate_append_same)
    finally show ?thesis by simp
  qed
qed

lemma replace_inf_with_nan_correct:
  assumes "nc \<le> N" and "0 < N" and "N \<le> length arr" and "length arr < 2 ^ 64"
  shows "replace_inf_with_nan arr N nc
           = Some (take (N - nc) arr @ replicate nc quiet_NaN @ drop N arr)"
proof -
  have s: "sz_sub N 1 = N - 1" using assms by (intro sz_sub_exact) simp_all
  have "replace_inf_loop nc arr (N - 1)
          = Some (take (Suc (N - 1) - nc) arr @ replicate nc quiet_NaN @ drop (Suc (N - 1)) arr)"
    using assms by (intro replace_inf_loop_correct) simp_all
  then show ?thesis using assms(2) unfolding replace_inf_with_nan_def s by simp
qed

section \<open>The sort: correctness\<close>

lemma sort_short: "length xs \<le> 1 \<Longrightarrow> sort xs = xs"
  by (cases xs) simp_all

lemma avx512_qsort_sorts:
  fixes arr :: "'a::linorder list"
  assumes pack: "0 < lanes" "2 * lanes \<le> Suc threshold" "2 * U * lanes \<le> Suc threshold"
    and N: "N \<le> length arr" and b: "length arr < 2 ^ 64"
    and bounds: "\<forall>x\<in>set (take N arr). type_min \<le> x \<and> x \<le> type_max"
  shows "avx512_qsort lanes threshold U type_max type_min get_pivot_blocks arr N
           = Some (sort (take N arr) @ drop N arr)"
proof (cases "1 < N")
  case True
  have l: "log2_sz N = Some (floor_log2 N)" using True by (simp add: log2_sz_def)
  have bs: "\<forall>x\<in>set (seg arr 0 (0 + N)). type_min \<le> x \<and> x \<le> type_max"
    using bounds by (simp add: seg_take)
  have N0: "0 + N \<le> length arr" using N by simp
  have "qsort_rec lanes threshold U type_max type_min get_pivot_blocks arr 0
          (sz_sub (0 + N) 1) (2 * floor_log2 N)
        = Some (sorted_range arr 0 (0 + N))"
    using pack b N0 bs by (rule qsort_rec_sorts)
  then show ?thesis using True l by (simp add: avx512_qsort_def sorted_range_def seg_take)
next
  case False
  then have "length (take N arr) \<le> 1" by simp
  then have "sort (take N arr) = take N arr" by (rule sort_short)
  then show ?thesis using False by (simp add: avx512_qsort_def)
qed

text \<open>
  Sorting after the NaNs have been replaced by a value above every number puts the
  replacements last.
\<close>

lemma mset_replaced:
  "mset (map (\<lambda>c. if is_a_nan c then m else c) xs)
     = mset (filter (\<lambda>c. \<not> is_a_nan c) xs) + replicate_mset (nan_count_of xs) m"
  by (induction xs) (simp_all add: nan_count_of_def)

lemma sort_replaced:
  fixes m :: "'a::linorder fp"
  assumes "\<forall>c\<in>set xs. \<not> is_a_nan c \<longrightarrow> c \<le> m"
  shows "sort (map (\<lambda>c. if is_a_nan c then m else c) xs)
           = sort (filter (\<lambda>c. \<not> is_a_nan c) xs) @ replicate (nan_count_of xs) m"
proof -
  let ?r = "sort (filter (\<lambda>c. \<not> is_a_nan c) xs) @ replicate (nan_count_of xs) m"
  have "mset ?r = mset (filter (\<lambda>c. \<not> is_a_nan c) xs) + replicate_mset (nan_count_of xs) m"
    by simp
  then have "mset ?r = mset (map (\<lambda>c. if is_a_nan c then m else c) xs)"
    unfolding mset_replaced .
  moreover have "sorted ?r" using assms by (auto simp: sorted_append)
  ultimately show ?thesis by (metis properties_for_sort)
qed

lemma length_filter_not_nan:
  "length (filter (\<lambda>c. \<not> is_a_nan c) xs) = length xs - nan_count_of xs"
proof -
  have "length (filter is_a_nan xs) + length (filter (\<lambda>c. \<not> is_a_nan c) xs) = length xs"
    by (rule sum_length_filter_compl)
  then show ?thesis by (simp add: nan_count_of_def)
qed

lemma avx512_qsort_float_sorts:
  fixes farr :: "'v::linorder fp list"
  assumes pack: "0 < lanes" "2 * lanes \<le> Suc threshold" "2 * U * lanes \<le> Suc threshold"
    and N1: "1 < N" and N: "N \<le> length farr" and b: "length farr + lanes \<le> 2 ^ 64"
    and mm: "vmin \<le> vmax"
    and bounds: "\<forall>v. Num v \<in> set (take N farr) \<longrightarrow> vmin \<le> v \<and> v \<le> vmax"
  shows "avx512_qsort_float lanes threshold U (Num vmax) (Num vmin) get_pivot_blocks farr N
           = Some (sort (filter (\<lambda>c. \<not> is_a_nan c) (take N farr))
                   @ replicate (nan_count_of (take N farr)) quiet_NaN @ drop N farr)"
proof -
  let ?repl = "\<lambda>c. if is_a_nan c then Num vmax else c"
  let ?T = "take N farr"
  define arr1 where "arr1 = map ?repl ?T @ drop N farr"
  define nc where "nc = nan_count_of ?T"
  define F where "F = filter (\<lambda>c. \<not> is_a_nan c) ?T"
  have lT: "length ?T = N" using N by simp
  have b64: "length farr < 2 ^ 64" using b pack(1) by simp
  have pre: "replace_nan_with_inf lanes (Num vmax) farr N = Some (arr1, nc)"
    unfolding arr1_def nc_def using pack(1) N b by (intro replace_nan_with_inf_correct) simp_all
  have l1: "length arr1 = length farr" unfolding arr1_def using N by simp
  have t1: "take N arr1 = map ?repl ?T" unfolding arr1_def using lT by simp
  have d1: "drop N arr1 = drop N farr" unfolding arr1_def using lT by simp
  have top: "\<forall>c\<in>set ?T. \<not> is_a_nan c \<longrightarrow> c \<le> Num vmax"
  proof (intro ballI impI)
    fix c assume c: "c \<in> set ?T" "\<not> is_a_nan c"
    obtain v where v: "c = Num v" using c(2) by (cases c) simp_all
    then have "v \<le> vmax" using c(1) bounds by blast
    then show "c \<le> Num vmax" using v by simp
  qed
  have bs: "\<forall>x\<in>set (seg arr1 0 (0 + N)). Num vmin \<le> x \<and> x \<le> Num vmax"
  proof
    fix x assume "x \<in> set (seg arr1 0 (0 + N))"
    then have "x \<in> set (map ?repl ?T)" using t1 by (simp add: seg_take)
    then obtain c where c: "c \<in> set ?T" "x = ?repl c" by auto
    show "Num vmin \<le> x \<and> x \<le> Num vmax"
    proof (cases c)
      case (Num v)
      then have "vmin \<le> v \<and> v \<le> vmax" using c(1) bounds by blast
      then show ?thesis using c(2) Num by simp
    next
      case (NaN q)
      then show ?thesis using c(2) mm by simp
    qed
  qed
  have l: "log2_sz N = Some (floor_log2 N)" using N1 by (simp add: log2_sz_def)
  have "qsort_rec lanes threshold U (Num vmax) (Num vmin) get_pivot_blocks arr1 0
          (sz_sub (0 + N) 1) (2 * floor_log2 N)
        = Some (sorted_range arr1 0 (0 + N))"
    using pack _ _ bs
  proof (rule qsort_rec_sorts)
    show "length arr1 < 2 ^ 64" using l1 b64 by simp
    show "0 + N \<le> length arr1" using l1 N by simp
  qed
  moreover have "sorted_range arr1 0 (0 + N) = (sort F @ replicate nc (Num vmax)) @ drop N farr"
    unfolding F_def nc_def using sort_replaced[OF top] t1 d1
    by (simp add: sorted_range_def seg_take)
  ultimately have srt: "qsort_rec lanes threshold U (Num vmax) (Num vmin) get_pivot_blocks arr1 0
          (sz_sub N 1) (2 * floor_log2 N)
        = Some ((sort F @ replicate nc (Num vmax)) @ drop N farr)"
    by simp
  let ?arr2 = "(sort F @ replicate nc (Num vmax)) @ drop N farr"
  have lF: "length F = N - nc" unfolding F_def nc_def using length_filter_not_nan[of ?T] lT by simp
  have ncN: "nc \<le> N" unfolding nc_def using nan_count_of_le[of ?T] lT by simp
  have l2: "length ?arr2 = length farr" using lF ncN N by simp
  have post: "replace_inf_with_nan ?arr2 N nc
                = Some (take (N - nc) ?arr2 @ replicate nc quiet_NaN @ drop N ?arr2)"
    using ncN N1 N b64 l2 by (intro replace_inf_with_nan_correct) simp_all
  have t2: "take (N - nc) ?arr2 = sort F" using lF by simp
  have d2: "drop N ?arr2 = drop N farr" using lF ncN by simp
  have "avx512_qsort_float lanes threshold U (Num vmax) (Num vmin) get_pivot_blocks farr N
          = Some (sort F @ replicate nc quiet_NaN @ drop N farr)"
    unfolding avx512_qsort_float_def using N1
    by (simp only: if_True pre option.case prod.case l srt post t2 d2)
  then show ?thesis unfolding F_def nc_def .
qed

section \<open>The quicksort driver: the cells are permuted\<close>

lemma seg_drop_take: "seg xs a b = drop a (take b xs)"
  by (simp add: seg_def drop_take)

lemma partition_unrolled_returns:
  fixes p :: "'a::linorder"
  assumes "0 < lanes" and "2 * U * lanes \<le> Suc threshold"
    and "left + threshold < right" and "right \<le> length arr" and "length arr < 2 ^ 64"
  shows "\<exists>arr1 k s b.
           partition_avx512_unrolled lanes U arr left right p type_max type_min
             = Some (arr1, k, s, b)
           \<and> partitioned_at p arr left right arr1 k"
proof (cases "U = 0")
  case True
  have lr: "left \<le> right" using assms(3) by simp
  from partition_avx512_correct[OF assms(1) lr assms(4,5), of p type_max type_min]
  show ?thesis using True by (auto simp: partition_avx512_unrolled_def)
next
  case False
  then have U: "0 < U" by simp
  have bigU: "left + 2 * U * lanes \<le> right" using assms(2,3) by simp
  from partition_avx512_unrolled_correct[OF assms(1) U assms(4,5) bigU, of p type_max type_min]
  show ?thesis by blast
qed

lemma qsort_rec_permutes:
  fixes arr :: "'a::linorder list"
  assumes pack: "0 < lanes" "2 * U * lanes \<le> Suc threshold"
  shows "length arr < 2 ^ 64 \<Longrightarrow> left + n \<le> length arr
     \<Longrightarrow> \<exists>arr'. qsort_rec lanes threshold U type_max type_min get_pivot_blocks arr left
                  (sz_sub (left + n) 1) max_iters = Some arr'
              \<and> length arr' = length arr \<and> take left arr' = take left arr
              \<and> drop (left + n) arr' = drop (left + n) arr
              \<and> mset (seg arr' left (left + n)) = mset (seg arr left (left + n))"
proof (induction max_iters arbitrary: arr left n)
  case 0
  have m: "left + n < 2 ^ 64" using 0(1,2) by simp
  have "std_sort arr left (left + n) = Some (sorted_range arr left (left + n))"
    using 0(2) by (intro std_sort_Some) simp_all
  then have "qsort_rec lanes threshold U type_max type_min get_pivot_blocks arr left
               (sz_sub (left + n) 1) 0 = Some (sorted_range arr left (left + n))"
    by (simp add: qsort_rec.simps[of _ _ _ _ _ _ _ _ _ 0] sz_pred_succ[OF m, unfolded One_nat_def])
  then show ?case using 0(2)
    by (simp add: length_sorted_range take_sorted_range drop_sorted_range seg_sorted_range)
next
  case (Suc m)
  let ?right = "sz_sub (left + n) 1"
  let ?R = "left + n"
  have mR: "?R < 2 ^ 64" using Suc.prems(1,2) by simp
  have r1: "sz_add ?right 1 = ?R" using mR by (rule sz_pred_succ)
  note r1s = r1[unfolded One_nat_def]
  have len: "sz_sub ?R left = n" using mR by (simp add: sz_sub_exact)
  show ?case
  proof (cases "n \<le> threshold")
    case True
    have "sort_n threshold arr left n = Some (sorted_range arr left ?R)"
      using True Suc.prems(2) by (rule sort_n_Some)
    then have "qsort_rec lanes threshold U type_max type_min get_pivot_blocks arr left ?right
                 (Suc m) = Some (sorted_range arr left ?R)"
      using True by (simp add: qsort_rec.simps[of _ _ _ _ _ _ _ _ _ "Suc m"] r1s len)
    then show ?thesis using Suc.prems(2)
      by (simp add: length_sorted_range take_sorted_range drop_sorted_range seg_sorted_range)
  next
    case False
    define p where "p = get_pivot_blocks arr left ?right"
    have big: "left + threshold < ?R" using False by simp
    from partition_unrolled_returns[OF pack big Suc.prems(2,1), of p type_max type_min]
    obtain arr1 k s b where part:
      "partition_avx512_unrolled lanes U arr left ?R p type_max type_min = Some (arr1, k, s, b)"
      and pa: "partitioned_at p arr left ?R arr1 k"
      by blast
    have d: "left \<le> k" "k \<le> ?R" "length arr1 = length arr"
      "take left arr1 = take left arr" "drop ?R arr1 = drop ?R arr"
      "mset (seg arr1 left ?R) = mset (seg arr left ?R)"
      using pa unfolding partitioned_at_def by blast+
    have kl: "k \<le> length arr1" using d(2,3) Suc.prems(2) by simp
    have l1: "length arr1 < 2 ^ 64" using d(3) Suc.prems(1) by simp
    \<comment> \<open>the left part\<close>
    have "\<exists>arr2. (if p \<noteq> s
                  then qsort_rec lanes threshold U type_max type_min get_pivot_blocks arr1 left
                         (sz_sub k 1) m
                  else Some arr1) = Some arr2
              \<and> length arr2 = length arr1 \<and> take left arr2 = take left arr1
              \<and> drop k arr2 = drop k arr1
              \<and> mset (seg arr2 left k) = mset (seg arr1 left k)"
    proof (cases "p = s")
      case True
      then show ?thesis by simp
    next
      case False
      have k': "left + (k - left) = k" using d(1) by simp
      have l2: "left + (k - left) \<le> length arr1" using kl d(1) by simp
      from Suc.IH[OF l1 l2] show ?thesis using False unfolding k' by simp
    qed
    then obtain arr2 where left_call:
      "(if p \<noteq> s
        then qsort_rec lanes threshold U type_max type_min get_pivot_blocks arr1 left
               (sz_sub k 1) m
        else Some arr1) = Some arr2"
      and a2: "length arr2 = length arr1" "take left arr2 = take left arr1"
        "drop k arr2 = drop k arr1" "mset (seg arr2 left k) = mset (seg arr1 left k)"
      by blast
    \<comment> \<open>the right part\<close>
    have "\<exists>arr3. (if p \<noteq> b
                  then qsort_rec lanes threshold U type_max type_min get_pivot_blocks arr2 k
                         ?right m
                  else Some arr2) = Some arr3
              \<and> length arr3 = length arr2 \<and> take k arr3 = take k arr2
              \<and> drop ?R arr3 = drop ?R arr2
              \<and> mset (seg arr3 k ?R) = mset (seg arr2 k ?R)"
    proof (cases "p = b")
      case True
      then show ?thesis by simp
    next
      case False
      have R': "k + (?R - k) = ?R" using d(2) by simp
      have l3: "length arr2 < 2 ^ 64" using a2(1) l1 by simp
      have l4: "k + (?R - k) \<le> length arr2" using a2(1) d(2,3) Suc.prems(2) by simp
      from Suc.IH[OF l3 l4] show ?thesis using False unfolding R' by simp
    qed
    then obtain arr3 where right_call:
      "(if p \<noteq> b
        then qsort_rec lanes threshold U type_max type_min get_pivot_blocks arr2 k ?right m
        else Some arr2) = Some arr3"
      and a3: "length arr3 = length arr2" "take k arr3 = take k arr2"
        "drop ?R arr3 = drop ?R arr2" "mset (seg arr3 k ?R) = mset (seg arr2 k ?R)"
      by blast
    \<comment> \<open>the whole\<close>
    have nz: "\<not> Suc m \<le> 0" by simp
    have res: "qsort_rec lanes threshold U type_max type_min get_pivot_blocks arr left ?right
                 (Suc m) = Some arr3"
      apply (subst qsort_rec.simps)
      unfolding r1 len p_def[symmetric] diff_Suc_1
      apply (simp only: nz False if_False part option.case prod.case left_call right_call)
      done
    have t: "take left arr3 = take left arr"
    proof -
      have "take left (take k arr3) = take left (take k arr2)" using a3(2) by simp
      then have "take left arr3 = take left arr2" using d(1) by (simp add: min_def)
      then show ?thesis using a2(2) d(4) by simp
    qed
    have dr: "drop ?R arr3 = drop ?R arr"
    proof -
      have "drop (?R - k) (drop k arr2) = drop (?R - k) (drop k arr1)" using a2(3) by simp
      then have "drop ?R arr2 = drop ?R arr1" using d(2) by simp
      then show ?thesis using a3(3) d(5) by simp
    qed
    have ms: "mset (seg arr3 left ?R) = mset (seg arr left ?R)"
    proof -
      have "seg arr3 left k = seg arr2 left k" unfolding seg_drop_take a3(2) ..
      then have m1: "mset (seg arr3 left k) = mset (seg arr1 left k)" using a2(4) by simp
      have "seg arr2 k ?R = seg arr1 k ?R" unfolding seg_def a2(3) ..
      then have m2: "mset (seg arr3 k ?R) = mset (seg arr1 k ?R)" using a3(4) by simp
      have "mset (seg arr3 left ?R) = mset (seg arr3 left k) + mset (seg arr3 k ?R)"
        using seg_split[OF d(1,2), of arr3] by simp
      also have "\<dots> = mset (seg arr1 left k) + mset (seg arr1 k ?R)" unfolding m1 m2 ..
      also have "\<dots> = mset (seg arr1 left ?R)" using seg_split[OF d(1,2), of arr1] by simp
      finally show ?thesis using d(6) by simp
    qed
    have "length arr3 = length arr" using a3(1) a2(1) d(3) by simp
    then show ?thesis using res t dr ms by blast
  qed
qed

lemma avx512_qsort_permutes_cells:
  fixes arr :: "'a::linorder list"
  assumes "0 < lanes" and "2 * U * lanes \<le> Suc threshold"
    and "N \<le> length arr" and "length arr < 2 ^ 64"
  shows "\<exists>arr'. avx512_qsort lanes threshold U type_max type_min get_pivot_blocks arr N
                  = Some arr'
               \<and> mset (take N arr') = mset (take N arr)"
proof (cases "1 < N")
  case True
  have l: "log2_sz N = Some (floor_log2 N)" using True by (simp add: log2_sz_def)
  have N0: "0 + N \<le> length arr" using assms(3) by simp
  from qsort_rec_permutes[OF assms(1,2) assms(4) N0,
      of type_max type_min get_pivot_blocks "2 * floor_log2 N"]
  show ?thesis using True l by (auto simp: avx512_qsort_def seg_take)
next
  case False
  then show ?thesis by (simp add: avx512_qsort_def)
qed

section \<open>The sort: order and permutation\<close>

lemma sorted_prefix_nth:
  fixes xs :: "'a::linorder list"
  assumes "i < j" and "j < length xs"
  shows "(sort xs @ ys) ! i \<le> (sort xs @ ys) ! j"
proof -
  have "sort xs ! i \<le> sort xs ! j"
    using assms by (intro sorted_nth_mono) simp_all
  then show ?thesis using assms by (simp add: nth_append)
qed

lemma filter_not_nan_sorted:
  "filter (\<lambda>c. \<not> is_a_nan c) (sort (filter (\<lambda>c. \<not> is_a_nan c) xs) @ replicate n quiet_NaN)
     = sort (filter (\<lambda>c. \<not> is_a_nan c) xs)"
proof -
  have "\<forall>c\<in>set (sort (filter (\<lambda>c. \<not> is_a_nan c) xs)). \<not> is_a_nan c" by simp
  then have "filter (\<lambda>c. \<not> is_a_nan c) (sort (filter (\<lambda>c. \<not> is_a_nan c) xs))
               = sort (filter (\<lambda>c. \<not> is_a_nan c) xs)"
    by (intro filter_True) simp
  then show ?thesis by (simp add: quiet_NaN_def)
qed

lemma nan_count_sorted_numbers:
  "nan_count_of (sort (filter (\<lambda>c. \<not> is_a_nan c) xs) @ replicate n quiet_NaN) = n"
proof -
  have "filter is_a_nan (sort (filter (\<lambda>c. \<not> is_a_nan c) xs)) = []"
    by (simp add: filter_empty_conv)
  then show ?thesis by (simp add: nan_count_of_def quiet_NaN_def)
qed

text \<open>
  With eight lanes, \<open>num_unroll = 8\<close> and a network sort threshold of 64 (constants the
  pack interface allows), the sort of 65 cells calls the unrolled partition on a range
  that leaves exactly eight registers after the scalar loop: \<^verbatim>\<open>vec_left\<close> and
  \<^verbatim>\<open>vec_right\<close> are loaded from the same cells, \<open>right\<close> drops below \<open>left\<close>, and the main
  loop leaves the array. The sort has no result.
\<close>

lemma avx512_qsort_one_round:
  "avx512_qsort 8 64 8 64 0 (\<lambda>arr left right. arr ! ((left + right) div 2)) [0 ..< 65] 65
     = None"
  by code_simp

text \<open>
  Claim C1 (as amended). The constants of the capability pack are parameters. Provided
  \<open>2 * num_unroll * numlanes \<le> network_sort_threshold + 1\<close> and
  \<open>2 * numlanes \<le> network_sort_threshold + 1\<close>, for every array and every \<open>N\<close> the sort
  returns and leaves the first \<open>N\<close> cells in non-decreasing order: for a type that is not
  floating-point, \<open>A[i] \<le> A[j]\<close> for all \<open>i < j < N\<close>; for a floating-point type, \<open>a \<le> b\<close>
  for all \<open>i < j < N\<close> whose cells hold the numbers \<open>a\<close> and \<open>b\<close>, and every cell after a NaN
  cell is a NaN cell (the NaNs occupy a suffix). \<^verbatim>\<open>type_max\<close> and \<^verbatim>\<open>type_min\<close> bound the
  values of the type; for a floating-point type they are the numbers \<open>vmax\<close> and \<open>vmin\<close>
  (the infinities). The two types have each their own pack. An array has fewer than
  \<open>2^64\<close> cells, and a floating-point array at most \<open>2^64 - numlanes\<close> (the source, in
  \<^verbatim>\<open>replace_nan_with_inf\<close>: ``(ii + numlanes) can never overflow'').
\<close>

theorem avx512_qsort_order:
  fixes arr :: "'a::linorder list" and farr :: "'v::linorder fp list"
  assumes "0 < lanes" and "2 * lanes \<le> Suc threshold" and "2 * U * lanes \<le> Suc threshold"
    and "N \<le> length arr" and "length arr < 2 ^ 64"
    and "\<forall>x\<in>set (take N arr). type_min \<le> x \<and> x \<le> type_max"
    and "0 < lanes'" and "2 * lanes' \<le> Suc threshold'" and "2 * U' * lanes' \<le> Suc threshold'"
    and "N' \<le> length farr" and "length farr + lanes' \<le> 2 ^ 64" and "vmin \<le> vmax"
    and "\<forall>v. Num v \<in> set (take N' farr) \<longrightarrow> vmin \<le> v \<and> v \<le> vmax"
  shows "(\<exists>arr'. avx512_qsort lanes threshold U type_max type_min get_pivot_blocks arr N
                    = Some arr'
                \<and> (\<forall>i j. i < j \<and> j < N \<longrightarrow> arr' ! i \<le> arr' ! j))
       \<and> (\<exists>farr'. avx512_qsort_float lanes' threshold' U' (Num vmax) (Num vmin)
                      get_pivot_blocks' farr N' = Some farr'
                \<and> (\<forall>i j a b. i < j \<and> j < N' \<and> farr' ! i = Num a \<and> farr' ! j = Num b \<longrightarrow> a \<le> b)
                \<and> (\<forall>i j. i < j \<and> j < N' \<and> is_a_nan (farr' ! i) \<longrightarrow> is_a_nan (farr' ! j)))"
proof
  have "avx512_qsort lanes threshold U type_max type_min get_pivot_blocks arr N
          = Some (sort (take N arr) @ drop N arr)"
    using assms(1-6) by (rule avx512_qsort_sorts)
  moreover have "\<forall>i j. i < j \<and> j < N
                   \<longrightarrow> (sort (take N arr) @ drop N arr) ! i \<le> (sort (take N arr) @ drop N arr) ! j"
  proof (intro allI impI)
    fix i j assume "i < j \<and> j < N"
    then show "(sort (take N arr) @ drop N arr) ! i \<le> (sort (take N arr) @ drop N arr) ! j"
      using assms(4) by (intro sorted_prefix_nth) simp_all
  qed
  ultimately show "\<exists>arr'. avx512_qsort lanes threshold U type_max type_min get_pivot_blocks arr N
                    = Some arr'
                \<and> (\<forall>i j. i < j \<and> j < N \<longrightarrow> arr' ! i \<le> arr' ! j)"
    by blast
next
  show "\<exists>farr'. avx512_qsort_float lanes' threshold' U' (Num vmax) (Num vmin)
                      get_pivot_blocks' farr N' = Some farr'
                \<and> (\<forall>i j a b. i < j \<and> j < N' \<and> farr' ! i = Num a \<and> farr' ! j = Num b \<longrightarrow> a \<le> b)
                \<and> (\<forall>i j. i < j \<and> j < N' \<and> is_a_nan (farr' ! i) \<longrightarrow> is_a_nan (farr' ! j))"
  proof (cases "1 < N'")
    case False
    then have "avx512_qsort_float lanes' threshold' U' (Num vmax) (Num vmin)
                 get_pivot_blocks' farr N' = Some farr"
      by (simp add: avx512_qsort_float_def)
    moreover have "\<not> (i < j \<and> j < N')" for i j using False by simp
    ultimately show ?thesis by blast
  next
    case True
    define S where "S = sort (filter (\<lambda>c. \<not> is_a_nan c) (take N' farr))"
    define nc where "nc = nan_count_of (take N' farr)"
    define R where "R = S @ replicate nc quiet_NaN @ drop N' farr"
    have res: "avx512_qsort_float lanes' threshold' U' (Num vmax) (Num vmin)
                 get_pivot_blocks' farr N' = Some R"
      unfolding R_def S_def nc_def
      using assms(7-9) True assms(10-13) by (rule avx512_qsort_float_sorts)
    have lT: "length (take N' farr) = N'" using assms(10) by simp
    have lS: "length S = N' - nc"
      unfolding S_def nc_def using length_filter_not_nan[of "take N' farr"] lT by simp
    have ncN: "nc \<le> N'" unfolding nc_def using nan_count_of_le[of "take N' farr"] lT by simp
    have sS: "sorted S" unfolding S_def by simp
    have nS: "\<not> is_a_nan c" if "c \<in> set S" for c using that unfolding S_def by simp
    have low: "R ! i = S ! i" if "i < N' - nc" for i
      unfolding R_def using that lS by (simp add: nth_append)
    have high: "R ! i = quiet_NaN" if "N' - nc \<le> i" "i < N'" for i
    proof -
      have "i - length S < nc" using that lS ncN by simp
      then show ?thesis unfolding R_def using that lS by (simp add: nth_append)
    qed
    have num_low: "i < N' - nc" if "i < N'" "R ! i = Num a" for i a
    proof (rule ccontr)
      assume "\<not> i < N' - nc"
      then have "R ! i = quiet_NaN" using that(1) by (intro high) simp_all
      then show False using that(2) by (simp add: quiet_NaN_def)
    qed
    have ord: "\<forall>i j a b. i < j \<and> j < N' \<and> R ! i = Num a \<and> R ! j = Num b \<longrightarrow> a \<le> b"
    proof (intro allI impI)
      fix i j a b
      assume h: "i < j \<and> j < N' \<and> R ! i = Num a \<and> R ! j = Num b"
      then have j: "j < N' - nc" by (intro num_low[of j b]) simp_all
      then have i: "i < N' - nc" using h by simp
      have "S ! i \<le> S ! j" using sS h j lS by (intro sorted_nth_mono) simp_all
      then have "Num a \<le> Num b" using low[OF i] low[OF j] h by simp
      then show "a \<le> b" by simp
    qed
    have suf: "\<forall>i j. i < j \<and> j < N' \<and> is_a_nan (R ! i) \<longrightarrow> is_a_nan (R ! j)"
    proof (intro allI impI)
      fix i j
      assume h: "i < j \<and> j < N' \<and> is_a_nan (R ! i)"
      have "\<not> i < N' - nc"
      proof
        assume i: "i < N' - nc"
        then have "S ! i \<in> set S" using lS by simp
        then have "\<not> is_a_nan (S ! i)" by (rule nS)
        then show False using h low[OF i] by simp
      qed
      then have "N' - nc \<le> j" using h by simp
      then have "R ! j = quiet_NaN" using h by (intro high) simp_all
      then show "is_a_nan (R ! j)" by (simp add: quiet_NaN_def)
    qed
    show ?thesis using res ord suf by blast
  qed
qed

theorem avx512_qsort_order_witness:
  "0 < (2::nat) \<and> 2 * 2 \<le> Suc 4 \<and> 2 * 1 * 2 \<le> Suc 4
   \<and> (\<exists>arr'. avx512_qsort 2 4 1 100 (- 100) (\<lambda>arr left right. arr ! left)
                [2, 1, 5, 0, 7, 3, 9, 4, 2, 2 :: int] 10 = Some arr'
            \<and> (\<forall>i j. i < j \<and> j < 10 \<longrightarrow> arr' ! i \<le> arr' ! j))
   \<and> (\<exists>farr'. avx512_qsort_float 2 4 1 (Num 100) (Num (- 100)) (\<lambda>arr left right. arr ! left)
                [Num 2, NaN 7, Num 5, Num 0, Num 7, NaN 3, Num 9, Num 4, Num 2, Num (2 :: int),
                 NaN 5] 10 = Some farr'
            \<and> (\<forall>i j a b. i < j \<and> j < 10 \<and> farr' ! i = Num a \<and> farr' ! j = Num b \<longrightarrow> a \<le> b)
            \<and> (\<forall>i j. i < j \<and> j < 10 \<and> is_a_nan (farr' ! i) \<longrightarrow> is_a_nan (farr' ! j)))"
proof -
  let ?A = "[2, 1, 5, 0, 7, 3, 9, 4, 2, 2 :: int]"
  let ?F = "[Num 2, NaN 7, Num 5, Num 0, Num 7, NaN 3, Num 9, Num 4, Num 2, Num (2 :: int), NaN 5]"
  have h1: "\<forall>x\<in>set (take 10 ?A). - 100 \<le> x \<and> x \<le> 100" by simp
  have h2: "\<forall>v. Num v \<in> set (take 10 ?F) \<longrightarrow> - 100 \<le> v \<and> v \<le> 100" by auto
  have h3: "length ?A < 2 ^ 64" "length ?F + 2 \<le> 2 ^ 64" by simp_all
  have h4: "(0::nat) < 2" "2 * 2 \<le> Suc 4" "2 * 1 * 2 \<le> Suc 4" "10 \<le> length ?A"
    "10 \<le> length ?F" "(- 100 :: int) \<le> 100" by simp_all
  show ?thesis
    using avx512_qsort_order [where lanes = 2 and threshold = 4 and U = 1 and N = 10
        and arr = ?A and type_min = "- 100" and type_max = 100
        and lanes' = 2 and threshold' = 4 and U' = 1 and N' = 10 and farr = ?F
        and vmin = "- 100" and vmax = 100
        and get_pivot_blocks = "\<lambda>arr left right. arr ! left"
        and get_pivot_blocks' = "\<lambda>arr left right. arr ! left",
        OF h4(1-4) h3(1) h1 h4(1-3) h4(5) h3(2) h4(6) h2]
    by simp
qed

text \<open>
  The claim as stated, for every pack, fails at constants the pack interface allows.
  With eight lanes, a network sort threshold of 8 (a power of two, at least the lane count)
  and unrolling disabled (\<open>unroll = 0\<close>), the driver partitions the nine cells below around
  the pivot \<open>A[0] = 5\<close> (a value of the range, which is all the specification asks of the
  sampler): after the scalar loop the range is exactly one register,
  \<^verbatim>\<open>partition_avx512\<close> returns without writing \<^verbatim>\<open>*smallest\<close> and \<^verbatim>\<open>*biggest\<close>, which
  still hold the one cell the scalar loop saw, 5; the pivot is equal to both, neither side
  is sorted, and the sort returns an array that is not in order. With eight lanes,
  \<open>num_unroll = 8\<close> and a threshold of 64, the sort of 65 cells has no result
  (\<open>avx512_qsort_one_round\<close>).
\<close>

theorem avx512_qsort_order_counterexample:
  "avx512_qsort 8 8 0 100 (- 100) (\<lambda>arr left right. arr ! left)
     [5, 9, 1, 8, 2, 7, 3, 6, 4 :: int] 9 = Some [4, 1, 2, 3, 9, 8, 7, 6, 5]
   \<and> avx512_qsort 8 64 8 64 0 (\<lambda>arr left right. arr ! ((left + right) div 2)) [0 ..< 65] 65
       = None"
proof -
  have "avx512_qsort 8 8 0 100 (- 100) (\<lambda>arr left right. arr ! left)
          [5, 9, 1, 8, 2, 7, 3, 6, 4 :: int] 9 = Some [4, 1, 2, 3, 9, 8, 7, 6, 5]"
    by code_simp
  then show ?thesis using avx512_qsort_one_round by simp
qed

text \<open>
  Claim C2 (as amended). For a type that is not floating-point, provided
  \<open>2 * num_unroll * numlanes \<le> network_sort_threshold + 1\<close>, for every array and every \<open>N\<close>
  the sort returns and the multiset of the first \<open>N\<close> cells is the one at entry. For a
  floating-point type, provided also \<open>2 * numlanes \<le> network_sort_threshold + 1\<close>, the sort
  returns, the multiset of the numbers among the first \<open>N\<close> cells is the one at entry, and
  so is the number of NaN cells. \<open>vmax\<close> and \<open>vmin\<close> (the infinities) bound the numbers of
  the floating-point array; an array has fewer than \<open>2^64\<close> cells, and a floating-point
  array at most \<open>2^64 - numlanes\<close>.
\<close>

theorem avx512_qsort_permutes:
  fixes arr :: "'a::linorder list" and farr :: "'v::linorder fp list"
  assumes "0 < lanes" and "2 * U * lanes \<le> Suc threshold"
    and "N \<le> length arr" and "length arr < 2 ^ 64"
    and "0 < lanes'" and "2 * lanes' \<le> Suc threshold'" and "2 * U' * lanes' \<le> Suc threshold'"
    and "N' \<le> length farr" and "length farr + lanes' \<le> 2 ^ 64" and "vmin \<le> vmax"
    and "\<forall>v. Num v \<in> set (take N' farr) \<longrightarrow> vmin \<le> v \<and> v \<le> vmax"
  shows "(\<exists>arr'. avx512_qsort lanes threshold U type_max type_min get_pivot_blocks arr N
                    = Some arr'
                \<and> mset (take N arr') = mset (take N arr))
       \<and> (\<exists>farr'. avx512_qsort_float lanes' threshold' U' (Num vmax) (Num vmin)
                      get_pivot_blocks' farr N' = Some farr'
                \<and> mset (filter (\<lambda>c. \<not> is_a_nan c) (take N' farr'))
                    = mset (filter (\<lambda>c. \<not> is_a_nan c) (take N' farr))
                \<and> nan_count_of (take N' farr') = nan_count_of (take N' farr))"
proof
  show "\<exists>arr'. avx512_qsort lanes threshold U type_max type_min get_pivot_blocks arr N
                    = Some arr'
                \<and> mset (take N arr') = mset (take N arr)"
    using assms(1-4) by (rule avx512_qsort_permutes_cells)
next
  show "\<exists>farr'. avx512_qsort_float lanes' threshold' U' (Num vmax) (Num vmin)
                      get_pivot_blocks' farr N' = Some farr'
                \<and> mset (filter (\<lambda>c. \<not> is_a_nan c) (take N' farr'))
                    = mset (filter (\<lambda>c. \<not> is_a_nan c) (take N' farr))
                \<and> nan_count_of (take N' farr') = nan_count_of (take N' farr)"
  proof (cases "1 < N'")
    case False
    then have "avx512_qsort_float lanes' threshold' U' (Num vmax) (Num vmin)
                 get_pivot_blocks' farr N' = Some farr"
      by (simp add: avx512_qsort_float_def)
    then show ?thesis by simp
  next
    case True
    define S where "S = sort (filter (\<lambda>c. \<not> is_a_nan c) (take N' farr))"
    define nc where "nc = nan_count_of (take N' farr)"
    define R where "R = S @ replicate nc quiet_NaN @ drop N' farr"
    have res: "avx512_qsort_float lanes' threshold' U' (Num vmax) (Num vmin)
                 get_pivot_blocks' farr N' = Some R"
      unfolding R_def S_def nc_def
      using assms(5-7) True assms(8-11) by (rule avx512_qsort_float_sorts)
    have lT: "length (take N' farr) = N'" using assms(8) by simp
    have lS: "length S = N' - nc"
      unfolding S_def nc_def using length_filter_not_nan[of "take N' farr"] lT by simp
    have ncN: "nc \<le> N'" unfolding nc_def using nan_count_of_le[of "take N' farr"] lT by simp
    have tk: "take N' R = S @ replicate nc quiet_NaN" unfolding R_def using lS ncN by simp
    have "filter (\<lambda>c. \<not> is_a_nan c) (take N' R) = S"
      unfolding tk S_def by (rule filter_not_nan_sorted)
    then have m: "mset (filter (\<lambda>c. \<not> is_a_nan c) (take N' R))
                    = mset (filter (\<lambda>c. \<not> is_a_nan c) (take N' farr))"
      unfolding S_def by simp
    have c: "nan_count_of (take N' R) = nan_count_of (take N' farr)"
      unfolding tk S_def nc_def by (rule nan_count_sorted_numbers)
    show ?thesis using res m c by blast
  qed
qed

theorem avx512_qsort_permutes_witness:
  "0 < (2::nat) \<and> 2 * 0 * 2 \<le> Suc 2 \<and> 2 * 2 \<le> Suc 4 \<and> 2 * 1 * 2 \<le> Suc 4
   \<and> (\<exists>arr'. avx512_qsort 2 2 0 100 (- 100) (\<lambda>arr left right. arr ! left)
                [3, 1, 4, 1, 5, 9, 2, 6, 5, 3 :: int] 10 = Some arr'
            \<and> mset (take 10 arr') = mset (take 10 [3, 1, 4, 1, 5, 9, 2, 6, 5, 3]))
   \<and> (\<exists>farr'. avx512_qsort_float 2 4 1 (Num 100) (Num (- 100)) (\<lambda>arr left right. arr ! left)
                [NaN 1, Num 3, Num 1, NaN 4, Num 1, Num 5, Num 9, Num 2, NaN 6, Num (5 :: int)]
                10 = Some farr'
            \<and> mset (filter (\<lambda>c. \<not> is_a_nan c) (take 10 farr'))
                = mset (filter (\<lambda>c. \<not> is_a_nan c)
                    (take 10 [NaN 1, Num 3, Num 1, NaN 4, Num 1, Num 5, Num 9, Num 2, NaN 6,
                              Num 5]))
            \<and> nan_count_of (take 10 farr')
                = nan_count_of (take 10 [NaN 1, Num 3, Num 1, NaN 4, Num 1, Num 5, Num 9, Num 2,
                                         NaN 6, Num (5 :: int)]))"
proof -
  let ?A = "[3, 1, 4, 1, 5, 9, 2, 6, 5, 3 :: int]"
  let ?F = "[NaN 1, Num 3, Num 1, NaN 4, Num 1, Num 5, Num 9, Num 2, NaN 6, Num (5 :: int)]"
  have h2: "\<forall>v. Num v \<in> set (take 10 ?F) \<longrightarrow> - 100 \<le> v \<and> v \<le> 100" by auto
  have h3: "length ?A < 2 ^ 64" "length ?F + 2 \<le> 2 ^ 64" by simp_all
  have h4: "(0::nat) < 2" "2 * 0 * 2 \<le> Suc 2" "2 * 2 \<le> Suc 4" "2 * 1 * 2 \<le> Suc 4"
    "10 \<le> length ?A" "10 \<le> length ?F" "(- 100 :: int) \<le> 100" by simp_all
  show ?thesis
    using avx512_qsort_permutes [where lanes = 2 and threshold = 2 and U = 0 and N = 10
        and arr = ?A and type_min = "- 100" and type_max = 100
        and lanes' = 2 and threshold' = 4 and U' = 1 and N' = 10 and farr = ?F
        and vmin = "- 100" and vmax = 100
        and get_pivot_blocks = "\<lambda>arr left right. arr ! left"
        and get_pivot_blocks' = "\<lambda>arr left right. arr ! left",
        OF h4(1) h4(2) h4(5) h3(1) h4(1) h4(3) h4(4) h4(6) h3(2) h4(7) h2]
    by simp
qed

text \<open>
  The claim as stated, for every pack, fails at constants the pack interface allows.
  With eight lanes, a network sort threshold of 8 and unrolling disabled, the NaN of the
  nine floating-point cells below is replaced by \<^verbatim>\<open>type_max\<close> (here 100), the one
  partition leaves the array unsorted (its extremes are not reported, as in the
  counterexample to the order), and the NaN post-pass overwrites the last cell, which
  holds 5 and not the replacement: the number 5 is lost and the number 100 has appeared.
  With eight lanes, \<open>num_unroll = 8\<close> and a threshold of 64, the sort of 65 cells has no
  result (\<open>avx512_qsort_one_round\<close>).
\<close>

theorem avx512_qsort_permutes_counterexample:
  "avx512_qsort_float 8 8 0 (Num 100) (Num (- 100)) (\<lambda>arr left right. arr ! left)
     [Num 5, Num 9, Num 1, Num 8, NaN 1, Num 7, Num 3, Num 6, Num (4 :: int)] 9
     = Some [Num 4, Num 1, Num 3, Num 9, Num 8, Num 100, Num 7, Num 6, NaN 0]
   \<and> avx512_qsort 8 64 8 64 0 (\<lambda>arr left right. arr ! ((left + right) div 2)) [0 ..< 65] 65
       = None"
proof -
  have "avx512_qsort_float 8 8 0 (Num 100) (Num (- 100)) (\<lambda>arr left right. arr ! left)
          [Num 5, Num 9, Num 1, Num 8, NaN 1, Num 7, Num 3, Num 6, Num (4 :: int)] 9
          = Some [Num 4, Num 1, Num 3, Num 9, Num 8, Num 100, Num 7, Num 6, NaN 0]"
    by code_simp
  then show ?thesis using avx512_qsort_one_round by simp
qed

end
